theory Spec2Isabelle
  imports Main
begin

section \<open>JavaScript values\<close>

text \<open>
  The TypeScript sources run on a JavaScript engine. The embedding represents the values the
  code handles as plain data: \<open>undefined\<close>, \<open>null\<close>, booleans, numbers, strings, arrays and
  plain objects (an association list in property order). Functions, symbols, class instances and
  accessor properties are outside the embedding. A finite number is represented by its exact
  decimal value: \<open>Fin i\<close> is the integer \<open>i\<close> and \<open>Dec m k\<close> is \<open>m / 10 ^ k\<close> with \<open>k > 0\<close>
  and \<open>m\<close> no multiple of ten; rounding to IEEE doubles is not modelled. Strings are over
  Isabelle's 8-bit characters, read as code units below 256.
\<close>

datatype jsnum = Fin int | Dec int nat | NaN | PosInf | NegInf

datatype jsval =
    JUndefined
  | JNull
  | JBool bool
  | JNum jsnum
  | JStr string
  | JArr "jsval list"
  | JObj "(string \<times> jsval) list"

text \<open>An exception value: the class of the thrown \<open>Error\<close> object and its \<open>message\<close>.\<close>

datatype js_error = Error string | TypeError string | SyntaxError string

fun message :: "js_error \<Rightarrow> string" where
  "message (Error m) = m"
| "message (TypeError m) = m"
| "message (SyntaxError m) = m"

text \<open>The outcome of a promise: fulfilled, rejected, or never settled.\<close>

datatype 'a settled = Fulfilled 'a | Rejected js_error | Pending

text \<open>The double quote character, as a string.\<close>

definition dquote :: string where
  "dquote = [CHR 0x22]"

text \<open>Failure propagation: the first exception ends the computation.\<close>

definition bindE :: "js_error + 'a \<Rightarrow> ('a \<Rightarrow> js_error + 'b) \<Rightarrow> js_error + 'b" where
  "bindE r f = (case r of Inl e \<Rightarrow> Inl e | Inr x \<Rightarrow> f x)"

subsection \<open>Numbers as text\<close>

definition digit_char :: "nat \<Rightarrow> char" where
  "digit_char d = char_of (48 + d)"

fun show_nat :: "nat \<Rightarrow> string" where
  "show_nat n = (if n < 10 then [digit_char n] else show_nat (n div 10) @ [digit_char (n mod 10)])"

declare show_nat.simps [simp del]

definition strip_zeros :: "string \<Rightarrow> string" where
  "strip_zeros ds = rev (dropWhile (\<lambda>c. c = CHR ''0'') (rev ds))"

text \<open>
  Scientific notation for the digits \<open>s\<close> of a number \<open>0.s\<close> times \<open>10 ^ n\<close>, as
  \<open>Number.prototype.toString\<close> writes it: \<open>d.ddde+x\<close>.
\<close>

definition exp_form :: "string \<Rightarrow> int \<Rightarrow> string" where
  "exp_form s n =
     take 1 s @ (if length s \<le> 1 then [] else CHR ''.'' # drop 1 s) @ ''e''
       @ (if n - 1 < 0 then ''-'' else ''+'') @ show_nat (nat \<bar>n - 1\<bar>)"

text \<open>
  \<open>Number::toString\<close> of ECMAScript for radix 10: plain digits for an integer of at most 21
  digits, a decimal point for exponents down to \<open>-6\<close>, scientific notation otherwise.
\<close>

definition show_unsigned :: "jsnum \<Rightarrow> string" where
  "show_unsigned x =
     (case x of
        Fin i \<Rightarrow>
          (let ds = show_nat (nat \<bar>i\<bar>) in
           if length ds \<le> 21 then ds else exp_form (strip_zeros ds) (int (length ds)))
      | Dec m k \<Rightarrow>
          (let ds = show_nat (nat \<bar>m\<bar>); n = int (length ds) - int k in
           if 0 < n \<and> n \<le> 21 then take (nat n) ds @ ''.'' @ drop (nat n) ds
           else if - 6 < n \<and> n \<le> 0 then ''0.'' @ replicate (nat (- n)) CHR ''0'' @ ds
           else exp_form ds n)
      | NaN \<Rightarrow> ''NaN''
      | PosInf \<Rightarrow> ''Infinity''
      | NegInf \<Rightarrow> ''Infinity'')"

definition number_to_string :: "jsnum \<Rightarrow> string" where
  "number_to_string x =
     (case x of
        Fin i \<Rightarrow> (if i < 0 then ''-'' else []) @ show_unsigned x
      | Dec m k \<Rightarrow> (if m < 0 then ''-'' else []) @ show_unsigned x
      | NaN \<Rightarrow> ''NaN''
      | PosInf \<Rightarrow> ''Infinity''
      | NegInf \<Rightarrow> ''-Infinity'')"

subsection \<open>Operators and built-in methods\<close>

text \<open>\<open>ToBoolean\<close>, as applied by \<open>!\<close>, \<open>&&\<close>, \<open>||\<close> and \<open>if\<close>.\<close>

fun truthy :: "jsval \<Rightarrow> bool" where
  "truthy JUndefined = False"
| "truthy JNull = False"
| "truthy (JBool b) = b"
| "truthy (JNum x) = (x \<noteq> Fin 0 \<and> x \<noteq> NaN)"
| "truthy (JStr s) = (s \<noteq> [])"
| "truthy (JArr xs) = True"
| "truthy (JObj kvs) = True"

fun typeof :: "jsval \<Rightarrow> string" where
  "typeof JUndefined = ''undefined''"
| "typeof JNull = ''object''"
| "typeof (JBool b) = ''boolean''"
| "typeof (JNum x) = ''number''"
| "typeof (JStr s) = ''string''"
| "typeof (JArr xs) = ''object''"
| "typeof (JObj kvs) = ''object''"

text \<open>\<open>Array.prototype.join\<close> on strings.\<close>

fun join :: "string \<Rightarrow> string list \<Rightarrow> string" where
  "join sep [] = []"
| "join sep [x] = x"
| "join sep (x # y # ys) = x @ sep @ join sep (y # ys)"

text \<open>
  \<open>ToString\<close>, as applied by a template literal: an array joins its elements with commas
  (\<open>null\<close> and \<open>undefined\<close> elements giving the empty string), a plain object gives
  \<open>[object Object]\<close>.
\<close>

fun js_to_string :: "jsval \<Rightarrow> string" where
  "js_to_string JUndefined = ''undefined''"
| "js_to_string JNull = ''null''"
| "js_to_string (JBool b) = (if b then ''true'' else ''false'')"
| "js_to_string (JNum x) = number_to_string x"
| "js_to_string (JStr s) = s"
| "js_to_string (JArr xs) =
     join '','' (map (\<lambda>x. if x = JUndefined \<or> x = JNull then [] else js_to_string x) xs)"
| "js_to_string (JObj kvs) = ''[object Object]''"

text \<open>
  Reading a property: a \<open>TypeError\<close> on \<open>undefined\<close> and \<open>null\<close>, the own property of an
  object, \<open>undefined\<close> otherwise. (Only names that no prototype defines are read this way.)
\<close>

fun get_prop :: "jsval \<Rightarrow> string \<Rightarrow> jsval" where
  "get_prop (JObj kvs) k = (case map_of kvs k of None \<Rightarrow> JUndefined | Some v \<Rightarrow> v)"
| "get_prop v k = JUndefined"

definition js_get :: "jsval \<Rightarrow> string \<Rightarrow> js_error + jsval" where
  "js_get v k =
     (if v = JUndefined \<or> v = JNull
      then Inl (TypeError (''Cannot read properties of '' @ js_to_string v @ '' (reading '' @ k @ '')''))
      else Inr (get_prop v k))"

text \<open>\<open>String.prototype.startsWith\<close> and \<open>String.prototype.includes\<close>.\<close>

fun starts_with :: "string \<Rightarrow> string \<Rightarrow> bool" where
  "starts_with t [] = True"
| "starts_with [] (c # s) = False"
| "starts_with (d # t) (c # s) = (d = c \<and> starts_with t s)"

fun contains :: "string \<Rightarrow> string \<Rightarrow> bool" where
  "contains [] s = (s = [])"
| "contains (d # t) s = (starts_with (d # t) s \<or> contains t s)"

text \<open>
  The method call \<open>v.includes(s)\<close> on a value that is neither \<open>undefined\<close> nor \<open>null\<close>: a
  string searches for a substring, an array for an element; any other value has no callable
  \<open>includes\<close>, and the call throws a \<open>TypeError\<close>. Likewise \<open>v.startsWith(s)\<close>, which only
  strings have.
\<close>

fun call_includes :: "jsval \<Rightarrow> string \<Rightarrow> js_error + bool" where
  "call_includes (JStr t) s = Inr (contains t s)"
| "call_includes (JArr xs) s = Inr (JStr s \<in> set xs)"
| "call_includes v s = Inl (TypeError ''includes is not a function'')"

fun call_startsWith :: "jsval \<Rightarrow> string \<Rightarrow> js_error + bool" where
  "call_startsWith (JStr t) s = Inr (starts_with t s)"
| "call_startsWith v s = Inl (TypeError ''startsWith is not a function'')"

text \<open>The optional calls \<open>v?.includes(s)\<close> and \<open>v?.startsWith(s)\<close>, used as conditions.\<close>

definition opt_includes :: "jsval \<Rightarrow> string \<Rightarrow> js_error + bool" where
  "opt_includes v s = (if v = JUndefined \<or> v = JNull then Inr False else call_includes v s)"

definition opt_startsWith :: "jsval \<Rightarrow> string \<Rightarrow> js_error + bool" where
  "opt_startsWith v s = (if v = JUndefined \<or> v = JNull then Inr False else call_startsWith v s)"

text \<open>\<open>[...].includes(v)\<close> on an array of string literals.\<close>

fun one_of :: "jsval \<Rightarrow> string list \<Rightarrow> bool" where
  "one_of (JStr s) xs = (s \<in> set xs)"
| "one_of v xs = False"

text \<open>
  A \<open>Map\<close> keeps its keys in insertion order; \<open>set\<close> on an existing key replaces the value in
  place. The same holds for the properties of an object.
\<close>

fun map_set :: "'k \<Rightarrow> 'v \<Rightarrow> ('k \<times> 'v) list \<Rightarrow> ('k \<times> 'v) list" where
  "map_set k v [] = [(k, v)]"
| "map_set k v ((k', v') # kvs) = (if k' = k then (k, v) # kvs else (k', v') # map_set k v kvs)"

section \<open>Sidebar state manager (\<open>StateManager\<close> in \<open>src/unnamed/part_001\<close>, types in \<open>sidebar/types.ts\<close>)\<close>

datatype UIMode = compact | expanded

datatype OperationPhase = queued | executing | completed | failed

record PendingOperation =
  p_id :: string
  p_commandId :: string
  p_status :: OperationPhase
  p_progress :: jsnum
  p_startTime :: jsnum
  p_endTime :: "jsnum option"
  p_error :: "string option"

datatype HistoryStatus = success | error

text \<open>\<open>Omit<HistoryEntry, 'id'>\<close>, the argument of \<open>addToHistory\<close>.\<close>

record HistoryEntryNoId =
  h_timestamp :: jsnum
  h_commandId :: string
  h_ai :: string
  h_model :: string
  h_status :: HistoryStatus
  h_duration :: jsnum
  h_message :: "string option"

record HistoryEntry = HistoryEntryNoId +
  h_id :: string

text \<open>
  Objects and arrays are shared by reference, so they live in a store and the fields
  \<open>operations\<close> and \<open>history\<close> of a state object hold references to arrays.
\<close>

type_synonym ref = nat

record SidebarState =
  selectedAI :: "string option"
  selectedModel :: "string option"
  selectedFile :: "string option"
  selectedOperation :: "string option"
  isLoading :: bool
  operations :: ref
  history :: ref
  uiMode :: UIMode

text \<open>
  The store, with the next free reference, the number of calls made to \<open>generateUUID\<close> and
  the lines written with \<open>console.error\<close>.
\<close>

record world =
  stateObjs :: "ref \<Rightarrow> SidebarState"
  opsArrays :: "ref \<Rightarrow> PendingOperation list"
  histArrays :: "ref \<Rightarrow> HistoryEntry list"
  nextRef :: ref
  uuidCalls :: nat
  console :: "string list"

text \<open>
  A listener is called with the state object and may throw, return nothing, or return a
  promise. Listeners are modelled as observers: they read the store and do not write it.
\<close>

datatype listener_result = Throws js_error | ReturnsVoid | ReturnsPromise "unit settled"

type_synonym listener = "world \<Rightarrow> ref \<Rightarrow> listener_result"

record StateManager =
  state :: ref
  changeListeners :: "listener list"

definition initialState :: "ref \<Rightarrow> ref \<Rightarrow> SidebarState" where
  "initialState ops hist =
     \<lparr>selectedAI = None, selectedModel = None, selectedFile = None, selectedOperation = None,
      isLoading = False, operations = ops, history = hist, uiMode = expanded\<rparr>"

definition emptyWorld :: world where
  "emptyWorld =
     \<lparr>stateObjs = (\<lambda>_. initialState 0 0), opsArrays = (\<lambda>_. []), histArrays = (\<lambda>_. []),
      nextRef = 0, uuidCalls = 0, console = []\<rparr>"

text \<open>The field initialisers of the class: two fresh empty arrays and the state object.\<close>

definition newStateManager :: "world \<Rightarrow> StateManager \<times> world" where
  "newStateManager w =
     (let a = nextRef w in
      (\<lparr>state = a + 2, changeListeners = []\<rparr>,
       w\<lparr>opsArrays := (opsArrays w)(a := []),
         histArrays := (histArrays w)(Suc a := []),
         stateObjs := (stateObjs w)(a + 2 := initialState a (Suc a)),
         nextRef := a + 3\<rparr>))"

text \<open>\<open>Promise.all\<close>: rejected as soon as one promise is rejected, fulfilled once all are.\<close>

fun promise_all :: "'a settled list \<Rightarrow> 'a list settled" where
  "promise_all [] = Fulfilled []"
| "promise_all (Rejected e # ps) = Rejected e"
| "promise_all (Fulfilled x # ps) =
     (case promise_all ps of
        Fulfilled xs \<Rightarrow> Fulfilled (x # xs)
      | Rejected e \<Rightarrow> Rejected e
      | Pending \<Rightarrow> Pending)"
| "promise_all (Pending # ps) =
     (case promise_all ps of Rejected e \<Rightarrow> Rejected e | _ \<Rightarrow> Pending)"

text \<open>
  One iteration of the \<open>map\<close> in \<open>emit\<close>: the listener is called inside \<open>try\<close>; a
  synchronous throw is logged and replaced by a resolved promise, anything returned goes
  through \<open>Promise.resolve\<close>.
\<close>

definition callListener :: "world \<Rightarrow> ref \<Rightarrow> listener \<Rightarrow> unit settled \<times> string list" where
  "callListener w event l =
     (case l w event of
        Throws e \<Rightarrow> (Fulfilled (), [''Error in state change listener: '' @ message e])
      | ReturnsVoid \<Rightarrow> (Fulfilled (), [])
      | ReturnsPromise p \<Rightarrow> (p, []))"

text \<open>The list \<open>promises\<close> built by \<open>emit\<close>, one promise per listener, in subscription order.\<close>

definition emitPromises :: "StateManager \<Rightarrow> ref \<Rightarrow> world \<Rightarrow> unit settled list" where
  "emitPromises m event w = map (\<lambda>l. fst (callListener w event l)) (changeListeners m)"

definition emit :: "StateManager \<Rightarrow> ref \<Rightarrow> world \<Rightarrow> unit settled \<times> world" where
  "emit m event w =
     ((case promise_all (emitPromises m event w) of
         Fulfilled _ \<Rightarrow> Fulfilled ()
       | Rejected e \<Rightarrow> Rejected e
       | Pending \<Rightarrow> Pending),
      w\<lparr>console := console w @ concat (map (\<lambda>l. snd (callListener w event l)) (changeListeners m))\<rparr>)"

text \<open>\<open>on\<close>: subscribes a listener (the returned unsubscribe function is not modelled).\<close>

definition on :: "listener \<Rightarrow> StateManager \<Rightarrow> StateManager" where
  "on callback m = m\<lparr>changeListeners := changeListeners m @ [callback]\<rparr>"

text \<open>\<open>getState\<close>: \<open>{ ...this.state }\<close> allocates a new object holding the same field values.\<close>

definition getState :: "StateManager \<Rightarrow> world \<Rightarrow> ref \<times> world" where
  "getState m w =
     (let r = nextRef w in
      (r, w\<lparr>stateObjs := (stateObjs w)(r := stateObjs w (state m)), nextRef := Suc r\<rparr>))"

text \<open>
  \<open>addToHistory\<close>. \<open>generateUUID\<close> is imported from a module that is not among the sources,
  so it is a parameter: \<open>uuid n\<close> is the result of its \<open>n\<close>-th call. The promise returned by
  \<open>emit\<close> is dropped by the caller.
\<close>

definition addToHistory ::
  "(nat \<Rightarrow> string) \<Rightarrow> StateManager \<Rightarrow> HistoryEntryNoId \<Rightarrow> world \<Rightarrow> string \<times> world" where
  "addToHistory uuid m entry w =
     (let id = uuid (uuidCalls w);
          w1 = w\<lparr>uuidCalls := Suc (uuidCalls w)\<rparr>;
          fullEntry = HistoryEntryNoId.extend entry (HistoryEntry.fields id);
          st = stateObjs w1 (state m);
          a = nextRef w1;
          w2 = w1\<lparr>histArrays := (histArrays w1)(a := take 50 (fullEntry # histArrays w1 (history st))),
                  stateObjs := (stateObjs w1)(state m := st\<lparr>history := a\<rparr>),
                  nextRef := Suc a\<rparr>;
          (_, w3) = emit m (state m) w2
      in (id, w3))"

text \<open>The history list of the manager's current state.\<close>

definition currentHistory :: "StateManager \<Rightarrow> world \<Rightarrow> HistoryEntry list" where
  "currentHistory m w = histArrays w (history (stateObjs w (state m)))"

text \<open>A sequence of \<open>addToHistory\<close> calls, collecting the returned ids.\<close>

fun addAllToHistory ::
  "(nat \<Rightarrow> string) \<Rightarrow> StateManager \<Rightarrow> HistoryEntryNoId list \<Rightarrow> world \<Rightarrow> string list \<times> world" where
  "addAllToHistory uuid m [] w = ([], w)"
| "addAllToHistory uuid m (e # es) w =
     (let (id, w1) = addToHistory uuid m e w;
          (ids, w2) = addAllToHistory uuid m es w1
      in (id # ids, w2))"

text \<open>
  What a caller can do with a state object it holds: assign a field of the object, or change an
  array that the object refers to (\<open>s.selectedAI = v\<close>, \<open>s.history.push(x)\<close>,
  \<open>s.operations.push(x)\<close>).
\<close>

definition assignSelectedAI :: "ref \<Rightarrow> string option \<Rightarrow> world \<Rightarrow> world" where
  "assignSelectedAI s v w = w\<lparr>stateObjs := (stateObjs w)(s := (stateObjs w s)\<lparr>selectedAI := v\<rparr>)\<rparr>"

definition pushHistory :: "ref \<Rightarrow> HistoryEntry \<Rightarrow> world \<Rightarrow> world" where
  "pushHistory s x w =
     (let a = history (stateObjs w s) in w\<lparr>histArrays := (histArrays w)(a := histArrays w a @ [x])\<rparr>)"

definition pushOperation :: "ref \<Rightarrow> PendingOperation \<Rightarrow> world \<Rightarrow> world" where
  "pushOperation s x w =
     (let a = operations (stateObjs w s) in w\<lparr>opsArrays := (opsArrays w)(a := opsArrays w a @ [x])\<rparr>)"

text \<open>The operations list of the manager's current state.\<close>

definition currentOperations :: "StateManager \<Rightarrow> world \<Rightarrow> PendingOperation list" where
  "currentOperations m w = opsArrays w (operations (stateObjs w (state m)))"

text \<open>
  The entries that a sequence of \<open>addToHistory\<close> calls builds: the \<open>j\<close>-th argument with the
  id of the \<open>(k + j)\<close>-th call of \<open>generateUUID\<close>.
\<close>

fun fullEntries :: "(nat \<Rightarrow> string) \<Rightarrow> nat \<Rightarrow> HistoryEntryNoId list \<Rightarrow> HistoryEntry list" where
  "fullEntries uuid k [] = []"
| "fullEntries uuid k (e # es) = HistoryEntryNoId.extend e (HistoryEntry.fields (uuid k)) # fullEntries uuid (Suc k) es"

text \<open>Sample data for concrete runs.\<close>

definition sampleEntry :: "nat \<Rightarrow> HistoryEntryNoId" where
  "sampleEntry i = \<lparr>h_timestamp = Fin (int i), h_commandId = ''file.create'', h_ai = ''claude'',
     h_model = ''claude-3-5-sonnet'', h_status = success, h_duration = Fin 12, h_message = None\<rparr>"

definition sampleUuid :: "nat \<Rightarrow> string" where
  "sampleUuid n = replicate (Suc n) CHR ''u''"

definition sampleFullEntry :: HistoryEntry where
  "sampleFullEntry = HistoryEntryNoId.extend (sampleEntry 0) (HistoryEntry.fields ''injected'')"

text \<open>
  Three listeners: one returns a promise that is rejected (an \<open>async\<close> function whose body
  throws), one throws synchronously, one returns normally.
\<close>

definition rejectingListener :: listener where
  "rejectingListener w s = ReturnsPromise (Rejected (Error ''listener failed''))"

definition throwingListener :: listener where
  "throwingListener w s = Throws (Error ''listener failed'')"

definition quietListener :: listener where
  "quietListener w s = ReturnsVoid"

section \<open>Transport (\<open>WebSocketClient\<close> in \<open>src/cmate-front/src/localization.ts\<close>)\<close>

datatype ReadyState = CONNECTING | OPEN | CLOSING | CLOSED

text \<open>
  The first five fields are those of the class. The others are its environment: every
  \<open>WebSocket\<close> object created so far with its \<open>readyState\<close> (each carries the four handlers
  that \<open>tryConnect\<close> attaches), the pending \<open>setTimeout\<close> callbacks with the delay they were
  scheduled with, and the calls made to the two observers.
\<close>

record WebSocketClient =
  ws :: "nat option"
  reconnectDelay :: int
  maxDelay :: int
  shouldReconnect :: bool
  connecting :: bool
  sockets :: "ReadyState list"
  timers :: "int list"
  infos :: "string list"
  messages :: "string list"

definition newWebSocketClient :: WebSocketClient where
  "newWebSocketClient =
     \<lparr>ws = None, reconnectDelay = 1000, maxDelay = 30000, shouldReconnect = True,
      connecting = False, sockets = [], timers = [], infos = [], messages = []\<rparr>"

definition readyState :: "WebSocketClient \<Rightarrow> nat \<Rightarrow> ReadyState option" where
  "readyState c i = (if i < length (sockets c) then Some (sockets c ! i) else None)"

text \<open>
  \<open>tryConnect\<close>: asks the resolver for the address (\<open>getUrl n\<close> is the answer to its \<open>n\<close>-th
  call), creates a socket and stores it in \<open>this.ws\<close>.
\<close>

definition tryConnect :: "(nat \<Rightarrow> string) \<Rightarrow> WebSocketClient \<Rightarrow> WebSocketClient" where
  "tryConnect getUrl c =
     c\<lparr>infos := infos c @ [''Connecting to '' @ getUrl (length (sockets c))],
       sockets := sockets c @ [CONNECTING],
       ws := Some (length (sockets c))\<rparr>"

definition connect :: "(nat \<Rightarrow> string) \<Rightarrow> WebSocketClient \<Rightarrow> WebSocketClient" where
  "connect getUrl c =
     (if connecting c \<and> (case ws c of None \<Rightarrow> False | Some i \<Rightarrow> readyState c i = Some OPEN)
      then c
      else tryConnect getUrl (c\<lparr>shouldReconnect := True, connecting := True\<rparr>))"

text \<open>\<open>close\<close>: \<open>ws.close()\<close> starts the closing handshake of a socket that is not closed yet.\<close>

definition close :: "WebSocketClient \<Rightarrow> WebSocketClient" where
  "close c =
     (let c1 = c\<lparr>shouldReconnect := False\<rparr> in
      case ws c1 of
        None \<Rightarrow> c1
      | Some i \<Rightarrow>
          (if readyState c1 i = Some CONNECTING \<or> readyState c1 i = Some OPEN
           then c1\<lparr>sockets := (sockets c1)[i := CLOSING]\<rparr> else c1))"

text \<open>The handlers attached to each socket, and the timer callback.\<close>

definition onOpen :: "nat \<Rightarrow> WebSocketClient \<Rightarrow> WebSocketClient" where
  "onOpen i c =
     c\<lparr>sockets := (sockets c)[i := OPEN],
       infos := infos c @ [''Connected to backend''],
       reconnectDelay := 1000,
       connecting := False\<rparr>"

definition onMessage :: "string \<Rightarrow> WebSocketClient \<Rightarrow> WebSocketClient" where
  "onMessage text c = c\<lparr>messages := messages c @ [text]\<rparr>"

definition onError :: "string \<Rightarrow> WebSocketClient \<Rightarrow> WebSocketClient" where
  "onError msg c = c\<lparr>infos := infos c @ [''WebSocket error: '' @ msg]\<rparr>"

definition onClose :: "nat \<Rightarrow> WebSocketClient \<Rightarrow> WebSocketClient" where
  "onClose i c =
     (let c1 = c\<lparr>sockets := (sockets c)[i := CLOSED],
                 infos := infos c @ [''Disconnected from backend'']\<rparr>
      in if \<not> shouldReconnect c1 then c1
         else c1\<lparr>timers := timers c1 @ [reconnectDelay c1]\<rparr>)"

definition timerCallback :: "(nat \<Rightarrow> string) \<Rightarrow> WebSocketClient \<Rightarrow> WebSocketClient" where
  "timerCallback getUrl c =
     tryConnect getUrl (c\<lparr>reconnectDelay := min (reconnectDelay c * 2) (maxDelay c)\<rparr>)"

text \<open>
  What can happen to a client: a call of \<open>connect\<close> or \<open>close\<close>, an event of one of the
  sockets, or a pending timer running out. A socket event is possible only in a matching
  \<open>readyState\<close>; \<open>step\<close> is \<open>None\<close> otherwise.
\<close>

datatype event =
    CallConnect
  | CallClose
  | SocketOpens nat
  | SocketReceives nat string
  | SocketFails nat string
  | SocketCloses nat
  | TimerFires nat

fun step :: "(nat \<Rightarrow> string) \<Rightarrow> event \<Rightarrow> WebSocketClient \<Rightarrow> WebSocketClient option" where
  "step getUrl CallConnect c = Some (connect getUrl c)"
| "step getUrl CallClose c = Some (close c)"
| "step getUrl (SocketOpens i) c =
     (if readyState c i = Some CONNECTING then Some (onOpen i c) else None)"
| "step getUrl (SocketReceives i text) c =
     (if readyState c i = Some OPEN \<or> readyState c i = Some CLOSING
      then Some (onMessage text c) else None)"
| "step getUrl (SocketFails i msg) c =
     (if readyState c i \<noteq> None \<and> readyState c i \<noteq> Some CLOSED
      then Some (onError msg c) else None)"
| "step getUrl (SocketCloses i) c =
     (if readyState c i \<noteq> None \<and> readyState c i \<noteq> Some CLOSED
      then Some (onClose i c) else None)"
| "step getUrl (TimerFires j) c =
     (if j < length (timers c)
      then Some (timerCallback getUrl (c\<lparr>timers := take j (timers c) @ drop (Suc j) (timers c)\<rparr>))
      else None)"

fun run :: "(nat \<Rightarrow> string) \<Rightarrow> event list \<Rightarrow> WebSocketClient \<Rightarrow> WebSocketClient option" where
  "run getUrl [] c = Some c"
| "run getUrl (e # es) c = (case step getUrl e c of None \<Rightarrow> None | Some c' \<Rightarrow> run getUrl es c')"

text \<open>The states a new client can get into.\<close>

definition reachable :: "(nat \<Rightarrow> string) \<Rightarrow> WebSocketClient \<Rightarrow> bool" where
  "reachable getUrl c \<longleftrightarrow> (\<exists>es. run getUrl es newWebSocketClient = Some c)"

text \<open>Sample data: an address resolver, a client whose connection is open, and a client that
  lost two connections and is connecting again.\<close>

definition sampleUrl :: "nat \<Rightarrow> string" where
  "sampleUrl n = ''ws://localhost:8000/ws''"

definition openClient :: WebSocketClient where
  "openClient =
     \<lparr>ws = Some 0, reconnectDelay = 1000, maxDelay = 30000, shouldReconnect = True,
      connecting = False, sockets = [OPEN], timers = [],
      infos = [''Connecting to ws://localhost:8000/ws'', ''Connected to backend''],
      messages = []\<rparr>"

definition retryingClient :: WebSocketClient where
  "retryingClient =
     \<lparr>ws = Some 2, reconnectDelay = 2000, maxDelay = 30000, shouldReconnect = True,
      connecting = True, sockets = [CLOSED, CLOSED, CONNECTING], timers = [2000],
      infos = [''Connecting to ws://localhost:8000/ws'', ''Disconnected from backend'',
               ''Connecting to ws://localhost:8000/ws'', ''Connecting to ws://localhost:8000/ws'',
               ''Disconnected from backend''],
      messages = []\<rparr>"

text \<open>Invariants of the reachable states.\<close>

definition delayInv :: "WebSocketClient \<Rightarrow> bool" where
  "delayInv c \<longleftrightarrow> maxDelay c = 30000 \<and> reconnectDelay c \<in> {1000, 2000, 4000, 8000, 16000, 30000}"

definition guardInv :: "WebSocketClient \<Rightarrow> bool" where
  "guardInv c \<longleftrightarrow> (connecting c \<longrightarrow> (\<forall>i. ws c = Some i \<longrightarrow> readyState c i \<noteq> Some OPEN))"

section \<open>Command registry (\<open>commands/commandRegistry.ts\<close>, types in \<open>src/unnamed/part_002\<close>)\<close>

datatype CommandCategory = FileOps | Debug | Tools | Execute | Custom

record OperationRequest =
  r_id :: string
  r_timestamp :: jsnum
  r_commandId :: string
  r_category :: CommandCategory
  r_selectedAI :: string
  r_selectedModel :: string
  r_payload :: "(string \<times> jsval) list"
  r_workspaceRoot :: string
  r_filePath :: "string option"
  r_metadata :: "(string \<times> jsval) list option"

record OperationError =
  e_code :: string
  e_message :: string
  e_details :: "(string \<times> jsval) list option"

record OperationResponse =
  o_id :: string
  o_status :: string
  o_data :: "jsval option"
  o_error :: "OperationError option"
  o_metadata :: "(string \<times> jsval) list option"
  o_timestamp :: jsnum

text \<open>\<open>CommandValidation\<close> and \<open>ValidationResult\<close> have the same shape.\<close>

record ValidationResult =
  valid :: bool
  errors :: "string list option"

text \<open>
  What the registry works in: the clock read by \<open>Date.now()\<close>, the calls made to the logger
  (level and message) and the calls made to handler methods (command id and method).
\<close>

datatype LogLevel = LogDebug | LogWarn | LogError

record env =
  now :: int
  logged :: "(LogLevel \<times> string) list"
  calls :: "(string \<times> string) list"

text \<open>
  A handler: \<open>validate\<close> returns or throws; \<open>execute\<close> is asynchronous, may take time and
  have effects, and its promise is fulfilled, rejected (a synchronous throw inside the \<open>try\<close>
  block counts as a rejection) or never settled.
\<close>

record CommandHandler =
  validate :: "jsval \<Rightarrow> js_error + ValidationResult"
  execute :: "OperationRequest \<Rightarrow> env \<Rightarrow> OperationResponse settled \<times> env"
  getSchema :: "(string \<times> jsval) list"

record CommandDescriptor =
  d_id :: string
  d_title :: string
  d_category :: CommandCategory
  d_description :: string
  d_icon :: "string option"
  d_handler :: CommandHandler
  d_requiresFile :: "bool option"
  d_requiresSelection :: "bool option"
  d_keybinding :: "string option"

record CommandRegistry =
  commands :: "(string \<times> CommandDescriptor) list"
  logger :: bool

definition newCommandRegistry :: "bool \<Rightarrow> CommandRegistry" where
  "newCommandRegistry hasLogger = \<lparr>commands = [], logger = hasLogger\<rparr>"

text \<open>\<open>this.logger?.warn(...)\<close> and the like: a call of the logger if there is one.\<close>

definition logTo :: "CommandRegistry \<Rightarrow> LogLevel \<Rightarrow> string \<Rightarrow> env \<Rightarrow> env" where
  "logTo reg level msg s = (if logger reg then s\<lparr>logged := logged s @ [(level, msg)]\<rparr> else s)"

definition register :: "CommandDescriptor \<Rightarrow> CommandRegistry \<Rightarrow> env \<Rightarrow> CommandRegistry \<times> env" where
  "register descriptor reg s =
     (let s1 = (if map_of (commands reg) (d_id descriptor) \<noteq> None
                then logTo reg LogWarn (''Command '' @ dquote @ d_id descriptor @ dquote @ '' already registered, overwriting'') s
                else s)
      in (reg\<lparr>commands := map_set (d_id descriptor) descriptor (commands reg)\<rparr>,
          logTo reg LogDebug (''Registered command: '' @ d_id descriptor) s1))"

fun registerBatch :: "CommandDescriptor list \<Rightarrow> CommandRegistry \<Rightarrow> env \<Rightarrow> CommandRegistry \<times> env" where
  "registerBatch [] reg s = (reg, s)"
| "registerBatch (d # ds) reg s = (let (reg1, s1) = register d reg s in registerBatch ds reg1 s1)"

definition errorResponse :: "OperationRequest \<Rightarrow> OperationError \<Rightarrow> env \<Rightarrow> OperationResponse" where
  "errorResponse request err s =
     \<lparr>o_id = r_id request, o_status = ''error'', o_data = None, o_error = Some err,
      o_metadata = None, o_timestamp = Fin (now s)\<rparr>"

text \<open>The value of \<open>validation.errors\<close>, an array of strings or \<open>undefined\<close>.\<close>

definition errorsValue :: "ValidationResult \<Rightarrow> jsval" where
  "errorsValue v = (case errors v of None \<Rightarrow> JUndefined | Some es \<Rightarrow> JArr (map JStr es))"

text \<open>
  \<open>CommandRegistry.execute\<close>. The result is the outcome of the promise it returns. The call of
  \<open>validate\<close> is outside the \<open>try\<close> block, so an exception of \<open>validate\<close> rejects the promise;
  the \<open>try\<close> block covers the call of the handler's \<open>execute\<close>.
\<close>

definition registryExecute ::
  "CommandRegistry \<Rightarrow> OperationRequest \<Rightarrow> env \<Rightarrow> OperationResponse settled \<times> env" where
  "registryExecute reg request s =
     (case map_of (commands reg) (r_commandId request) of
        None \<Rightarrow>
          (let s1 = logTo reg LogWarn (''Command not found: '' @ r_commandId request) s in
           (Fulfilled (errorResponse request
              \<lparr>e_code = ''COMMAND_NOT_FOUND'',
               e_message = ''Command '' @ dquote @ r_commandId request @ dquote @ '' not found. Available commands: ''
                             @ join '', '' (map fst (commands reg)),
               e_details = None\<rparr> s1), s1))
      | Some descriptor \<Rightarrow>
          (let s1 = s\<lparr>calls := calls s @ [(r_commandId request, ''validate'')]\<rparr> in
           case validate (d_handler descriptor) (JObj (r_payload request)) of
             Inl e \<Rightarrow> (Rejected e, s1)
           | Inr validation \<Rightarrow>
               if \<not> valid validation then
                 (let s2 = logTo reg LogWarn (''Validation failed for '' @ r_commandId request @ '':'') s1 in
                  (Fulfilled (errorResponse request
                     \<lparr>e_code = ''VALIDATION_ERROR'',
                      e_message = ''Payload validation failed'',
                      e_details = Some [(''errors'', errorsValue validation)]\<rparr> s2), s2))
               else
                 (let s2 = logTo reg LogDebug (''Executing command: '' @ r_commandId request) s1;
                      startTime = now s2;
                      (outcome, s3) = execute (d_handler descriptor) request
                                        (s2\<lparr>calls := calls s2 @ [(r_commandId request, ''execute'')]\<rparr>)
                  in case outcome of
                       Fulfilled response \<Rightarrow>
                         (let duration = now s3 - startTime;
                              s4 = logTo reg LogDebug
                                     (''Command completed in '' @ number_to_string (Fin duration) @ ''ms: ''
                                        @ r_commandId request) s3
                          in (Fulfilled (response\<lparr>o_metadata :=
                                 Some (map_set ''duration'' (JNum (Fin duration))
                                         (case o_metadata response of None \<Rightarrow> [] | Some md \<Rightarrow> md))\<rparr>), s4))
                     | Rejected e \<Rightarrow>
                         (let s4 = logTo reg LogError
                                     (''Command execution failed: '' @ r_commandId request) s3
                          in (Fulfilled (errorResponse request
                                \<lparr>e_code = ''EXECUTION_ERROR'',
                                 e_message = ''Command execution failed: '' @ message e,
                                 e_details = None\<rparr> s4), s4))
                     | Pending \<Rightarrow> (Pending, s3))))"

section \<open>Path validator (\<open>validators\<close> in \<open>src/unnamed/part_003\<close>)\<close>

definition validationResult :: "string list \<Rightarrow> ValidationResult" where
  "validationResult errs = \<lparr>valid = (length errs = 0), errors = (if length errs > 0 then Some errs else None)\<rparr>"

definition validateFilePath :: "jsval \<Rightarrow> js_error + ValidationResult" where
  "validateFilePath path =
     (let errors1 = (if \<not> truthy path then [''Path cannot be empty''] else []) in
      bindE (opt_includes path ''..'') (\<lambda>traversal.
      let errors2 = errors1 @ (if traversal then [''Path traversal (../) is not allowed''] else []) in
      bindE (opt_startsWith path ''/'') (\<lambda>absolute.
      let errors3 = errors2 @ (if absolute then [''Absolute paths are not allowed''] else []) in
      bindE (if truthy path then call_includes path [CHR 0x00] else Inr False) (\<lambda>nul.
      let errors4 = errors3 @ (if nul then [''Path contains invalid characters''] else []) in
      Inr (validationResult errors4)))))"

section \<open>File operations handler (\<open>commands/handlers/fileOpsHandler.ts\<close>)\<close>

text \<open>
  \<open>FileOpsHandler.validate\<close>. Reading \<open>payload.type\<close> throws when the payload is \<open>undefined\<close>
  or \<open>null\<close>; after it the payload is neither, and the later property reads cannot throw.
\<close>

definition fileOpsValidate :: "jsval \<Rightarrow> js_error + ValidationResult" where
  "fileOpsValidate payload =
     bindE (js_get payload ''type'') (\<lambda>ty.
     let errors1 =
           (if \<not> truthy ty then [''Operation type is required'']
            else if \<not> one_of ty [''create'', ''delete'', ''modify'', ''copy'', ''move'', ''rename'']
            then [''Invalid operation type: '' @ js_to_string ty]
            else [])
     in
     bindE (if \<not> truthy (get_prop payload ''targetPath'') then Inr (errors1 @ [''Target path is required''])
            else bindE (validateFilePath (get_prop payload ''targetPath'')) (\<lambda>pathValidation.
                   Inr (if \<not> valid pathValidation
                        then errors1 @ (case errors pathValidation of None \<Rightarrow> [] | Some es \<Rightarrow> es)
                        else errors1))) (\<lambda>errors2.
     bindE (if one_of ty [''copy'', ''move'', ''rename'']
            then (if \<not> truthy (get_prop payload ''sourcePath'')
                  then Inr (errors2 @ [''Source path is required for '' @ js_to_string ty @ '' operation''])
                  else bindE (validateFilePath (get_prop payload ''sourcePath'')) (\<lambda>sourceValidation.
                         Inr (if \<not> valid sourceValidation
                              then errors2 @ (case errors sourceValidation of None \<Rightarrow> [] | Some es \<Rightarrow> es)
                              else errors2)))
            else Inr errors2) (\<lambda>errors3.
     let errors4 =
           (if one_of ty [''create'', ''modify''] \<and> typeof (get_prop payload ''content'') \<noteq> ''string''
            then errors3 @ [''Content must be a string''] else errors3)
     in Inr (validationResult errors4))))"

text \<open>\<open>FileOpsHandler.execute\<close>: a placeholder that reports the operation as queued.\<close>

definition fileOpsExecute :: "OperationRequest \<Rightarrow> env \<Rightarrow> OperationResponse settled \<times> env" where
  "fileOpsExecute request s =
     (let operation = JObj (r_payload request) in
      (Fulfilled
         \<lparr>o_id = r_id request, o_status = ''success'',
          o_data = Some (JObj
            [(''type'', get_prop operation ''type''),
             (''path'', get_prop operation ''targetPath''),
             (''message'', JStr (''File operation '' @ dquote @ js_to_string (get_prop operation ''type'')
                                  @ dquote @ '' queued for execution''))]),
          o_error = None, o_metadata = None, o_timestamp = Fin (now s)\<rparr>, s))"

definition fileOpsSchema :: "(string \<times> jsval) list" where
  "fileOpsSchema =
     [(''type'', JObj [(''enum'', JArr (map JStr [''create'', ''delete'', ''modify'', ''copy'', ''move'', ''rename''])),
                      (''description'', JStr ''Type of file operation'')]),
      (''targetPath'', JObj [(''type'', JStr ''string''), (''description'', JStr ''Path to target file'')]),
      (''sourcePath'', JObj [(''type'', JStr ''string''),
                            (''description'', JStr ''Path to source file (for copy, move, rename)'')]),
      (''content'', JObj [(''type'', JStr ''string''),
                         (''description'', JStr ''File content (for create, modify)'')]),
      (''options'', JObj [(''type'', JStr ''object''),
                         (''properties'', JObj [(''overwrite'', JObj [(''type'', JStr ''boolean'')]),
                                               (''createParents'', JObj [(''type'', JStr ''boolean'')])])])]"

definition FileOpsHandler :: CommandHandler where
  "FileOpsHandler = \<lparr>validate = fileOpsValidate, execute = fileOpsExecute, getSchema = fileOpsSchema\<rparr>"

text \<open>The first registration of \<open>registerAllHandlers\<close> (\<open>commands/handlers/index.ts\<close>).\<close>

definition fileCreateDescriptor :: CommandDescriptor where
  "fileCreateDescriptor =
     \<lparr>d_id = ''file.create'', d_title = ''Create File'', d_category = FileOps,
      d_description = ''Create a new file in the workspace'', d_icon = None,
      d_handler = FileOpsHandler, d_requiresFile = Some False, d_requiresSelection = None,
      d_keybinding = None\<rparr>"

text \<open>Sample data: a clock, a registry holding \<open>file.create\<close>, and two requests.\<close>

definition sampleEnv :: env where
  "sampleEnv = \<lparr>now = 1700000000000, logged = [], calls = []\<rparr>"

definition sampleRegistry :: CommandRegistry where
  "sampleRegistry = fst (register fileCreateDescriptor (newCommandRegistry True) sampleEnv)"

definition sampleRequest :: "(string \<times> jsval) list \<Rightarrow> OperationRequest" where
  "sampleRequest payload =
     \<lparr>r_id = ''req-1'', r_timestamp = Fin 1700000000000, r_commandId = ''file.create'',
      r_category = FileOps, r_selectedAI = ''claude'', r_selectedModel = ''claude-3-5-sonnet'',
      r_payload = payload, r_workspaceRoot = ''/ws'', r_filePath = None, r_metadata = None\<rparr>"

text \<open>A payload without \<open>targetPath\<close>, and one whose \<open>targetPath\<close> is a number.\<close>

definition missingTargetPayload :: "(string \<times> jsval) list" where
  "missingTargetPayload = [(''type'', JStr ''create''), (''content'', JStr [])]"

definition numericTargetPayload :: "(string \<times> jsval) list" where
  "numericTargetPayload = [(''type'', JStr ''create''), (''targetPath'', JNum (Fin 5)), (''content'', JStr [])]"

section \<open>\<open>JSON.stringify\<close> and \<open>JSON.parse\<close>\<close>

text \<open>
  The protocol handler relies on the two built-in functions of the platform. They are modelled
  after the ECMAScript definition, on the values of the embedding, without the optional
  \<open>replacer\<close>, \<open>space\<close> and \<open>reviver\<close> arguments, which the sources never pass.
\<close>

subsection \<open>\<open>JSON.stringify\<close>\<close>

definition bslash :: char where
  "bslash = CHR 0x5C"

definition hex_digit :: "nat \<Rightarrow> char" where
  "hex_digit d = (if d < 10 then char_of (48 + d) else char_of (87 + d))"

text \<open>\<open>QuoteJSONString\<close>, one character at a time.\<close>

definition quote_char :: "char \<Rightarrow> string" where
  "quote_char c =
     (if c = CHR 0x08 then [bslash, CHR ''b'']
      else if c = CHR 0x09 then [bslash, CHR ''t'']
      else if c = CHR 0x0A then [bslash, CHR ''n'']
      else if c = CHR 0x0C then [bslash, CHR ''f'']
      else if c = CHR 0x0D then [bslash, CHR ''r'']
      else if c = CHR 0x22 then [bslash, CHR 0x22]
      else if c = bslash then [bslash, bslash]
      else if (of_char c :: nat) < 32
      then [bslash, CHR ''u'', CHR ''0'', CHR ''0'',
            hex_digit (of_char c div 16), hex_digit (of_char c mod 16)]
      else [c])"

definition quote :: "string \<Rightarrow> string" where
  "quote s = CHR 0x22 # concat (map quote_char s) @ [CHR 0x22]"

definition finite_num :: "jsnum \<Rightarrow> bool" where
  "finite_num x = (case x of Fin i \<Rightarrow> True | Dec m k \<Rightarrow> True | _ \<Rightarrow> False)"

text \<open>
  \<open>SerializeJSONProperty\<close>: \<open>None\<close> stands for the result \<open>undefined\<close>. An array element that
  gives \<open>undefined\<close> is written as \<open>null\<close>; an object member that gives \<open>undefined\<close> is left out;
  a number that is not finite is written as \<open>null\<close>.
\<close>

fun stringify_value :: "jsval \<Rightarrow> string option"
  and stringify_elements :: "jsval list \<Rightarrow> string list"
  and stringify_members :: "(string \<times> jsval) list \<Rightarrow> string list" where
  "stringify_value JUndefined = None"
| "stringify_value JNull = Some ''null''"
| "stringify_value (JBool b) = Some (if b then ''true'' else ''false'')"
| "stringify_value (JNum x) = Some (if finite_num x then number_to_string x else ''null'')"
| "stringify_value (JStr s) = Some (quote s)"
| "stringify_value (JArr xs) = Some (''['' @ join '','' (stringify_elements xs) @ '']'')"
| "stringify_value (JObj kvs) = Some (''{'' @ join '','' (stringify_members kvs) @ ''}'')"
| "stringify_elements [] = []"
| "stringify_elements (x # xs) =
     (case stringify_value x of None \<Rightarrow> ''null'' | Some t \<Rightarrow> t) # stringify_elements xs"
| "stringify_members [] = []"
| "stringify_members ((k, v) # kvs) =
     (case stringify_value v of
        None \<Rightarrow> stringify_members kvs
      | Some t \<Rightarrow> (quote k @ '':'' @ t) # stringify_members kvs)"

definition JSON_stringify :: "jsval \<Rightarrow> string option" where
  "JSON_stringify v = stringify_value v"

subsection \<open>\<open>JSON.parse\<close>\<close>

definition is_ws :: "char \<Rightarrow> bool" where
  "is_ws c \<longleftrightarrow> c = CHR 0x20 \<or> c = CHR 0x09 \<or> c = CHR 0x0A \<or> c = CHR 0x0D"

definition skip_ws :: "string \<Rightarrow> string" where
  "skip_ws cs = dropWhile is_ws cs"

definition is_digit :: "char \<Rightarrow> bool" where
  "is_digit c \<longleftrightarrow> 48 \<le> (of_char c :: nat) \<and> (of_char c :: nat) \<le> 57"

definition digit_val :: "char \<Rightarrow> nat" where
  "digit_val c = of_char c - 48"

definition nat_of_digits :: "string \<Rightarrow> nat" where
  "nat_of_digits ds = foldl (\<lambda>a c. 10 * a + digit_val c) 0 ds"

definition hex_val :: "char \<Rightarrow> nat option" where
  "hex_val c =
     (let n = (of_char c :: nat) in
      if 48 \<le> n \<and> n \<le> 57 then Some (n - 48)
      else if 97 \<le> n \<and> n \<le> 102 then Some (n - 87)
      else if 65 \<le> n \<and> n \<le> 70 then Some (n - 55)
      else None)"

definition hex4 :: "char \<Rightarrow> char \<Rightarrow> char \<Rightarrow> char \<Rightarrow> nat option" where
  "hex4 a b c d =
     (case (hex_val a, hex_val b, hex_val c, hex_val d) of
        (Some p, Some q, Some r, Some s) \<Rightarrow> Some (((p * 16 + q) * 16 + r) * 16 + s)
      | _ \<Rightarrow> None)"

text \<open>The character that a two-character escape stands for.\<close>

definition escape_char :: "char \<Rightarrow> char option" where
  "escape_char e =
     (if e = CHR 0x22 then Some (CHR 0x22)
      else if e = bslash then Some bslash
      else if e = CHR ''/'' then Some (CHR ''/'')
      else if e = CHR ''b'' then Some (CHR 0x08)
      else if e = CHR ''f'' then Some (CHR 0x0C)
      else if e = CHR ''n'' then Some (CHR 0x0A)
      else if e = CHR ''r'' then Some (CHR 0x0D)
      else if e = CHR ''t'' then Some (CHR 0x09)
      else None)"

definition cons_result :: "char \<Rightarrow> (string \<times> string) option \<Rightarrow> (string \<times> string) option" where
  "cons_result c r = (case r of None \<Rightarrow> None | Some (s, rest) \<Rightarrow> Some (c # s, rest))"

text \<open>
  The characters of a string literal after its opening quote, up to the closing quote, and the
  text that follows. Control characters must be escaped. An escape \<open>\uXXXX\<close> above \<open>00FF\<close>
  denotes a code unit that the 8-bit strings of the embedding do not have; the model does
  not accept it.
\<close>

fun string_body :: "string \<Rightarrow> (string \<times> string) option" where
  "string_body [] = None"
| "string_body (c # cs) =
     (if c = CHR 0x22 then Some ([], cs)
      else if c = bslash then
        (case cs of
           [] \<Rightarrow> None
         | e # cs1 \<Rightarrow>
             if e = CHR ''u'' then
               (case cs1 of
                  h1 # h2 # h3 # h4 # cs2 \<Rightarrow>
                    (case hex4 h1 h2 h3 h4 of
                       None \<Rightarrow> None
                     | Some n \<Rightarrow> if n < 256 then cons_result (char_of n) (string_body cs2) else None)
                | _ \<Rightarrow> None)
             else (case escape_char e of
                     None \<Rightarrow> None
                   | Some d \<Rightarrow> cons_result d (string_body cs1)))
      else if (of_char c :: nat) < 32 then None
      else cons_result c (string_body cs))"

text \<open>The value \<open>m / 10 ^ k\<close> in the representation of the embedding.\<close>

fun norm_dec :: "int \<Rightarrow> nat \<Rightarrow> jsnum" where
  "norm_dec m 0 = Fin m"
| "norm_dec m (Suc k) = (if m mod 10 = 0 then norm_dec (m div 10) k else Dec m (Suc k))"

text \<open>
  A number literal: an optional minus sign, an integer part without superfluous leading zero,
  an optional fraction and an optional exponent.
\<close>

definition number_fraction :: "string \<Rightarrow> (string \<times> string) option" where
  "number_fraction cs =
     (case cs of
        [] \<Rightarrow> Some ([], [])
      | c # r \<Rightarrow>
          if c = CHR ''.''
          then (if takeWhile is_digit r = [] then None
                else Some (takeWhile is_digit r, dropWhile is_digit r))
          else Some ([], cs))"

definition exponent_digits :: "bool \<Rightarrow> string \<Rightarrow> (int \<times> string) option" where
  "exponent_digits negative cs =
     (if takeWhile is_digit cs = [] then None
      else Some (if negative then - int (nat_of_digits (takeWhile is_digit cs))
                 else int (nat_of_digits (takeWhile is_digit cs)),
                 dropWhile is_digit cs))"

definition number_exponent :: "string \<Rightarrow> (int \<times> string) option" where
  "number_exponent cs =
     (case cs of
        [] \<Rightarrow> Some (0, [])
      | c # r \<Rightarrow>
          if c = CHR ''e'' \<or> c = CHR ''E''
          then (case r of
                  [] \<Rightarrow> None
                | s # r' \<Rightarrow>
                    if s = CHR ''-'' then exponent_digits True r'
                    else if s = CHR ''+'' then exponent_digits False r'
                    else exponent_digits False r)
          else Some (0, cs))"

definition number_value :: "bool \<Rightarrow> nat \<Rightarrow> int \<Rightarrow> jsnum" where
  "number_value negative m e =
     (let mantissa = (if negative then - int m else int m)
      in if 0 \<le> e then Fin (mantissa * 10 ^ nat e) else norm_dec mantissa (nat (- e)))"

definition unsigned_number :: "bool \<Rightarrow> string \<Rightarrow> (jsnum \<times> string) option" where
  "unsigned_number negative cs =
     (let ids = takeWhile is_digit cs in
      if ids = [] \<or> (length ids > 1 \<and> take 1 ids = ''0'') then None
      else
        (case number_fraction (dropWhile is_digit cs) of
           None \<Rightarrow> None
         | Some (fds, cs1) \<Rightarrow>
             (case number_exponent cs1 of
                None \<Rightarrow> None
              | Some (ex, cs2) \<Rightarrow>
                  Some (number_value negative (nat_of_digits (ids @ fds)) (ex - int (length fds)), cs2))))"

definition parse_number :: "string \<Rightarrow> (jsnum \<times> string) option" where
  "parse_number cs =
     (case cs of
        [] \<Rightarrow> None
      | c # r \<Rightarrow> if c = CHR ''-'' then unsigned_number True r else unsigned_number False cs)"

text \<open>
  The recursive descent over values, array elements and object members. The recursion is on
  a counter that every call decreases; \<open>JSON_parse\<close> starts it high enough for the text, so
  that \<open>OutOfFuel\<close> is never its outcome. A repeated key replaces the value of its first
  occurrence.
\<close>

datatype 'a parsed = Parsed 'a string | Invalid | OutOfFuel

fun parse_value :: "nat \<Rightarrow> string \<Rightarrow> jsval parsed"
  and parse_elements :: "nat \<Rightarrow> string \<Rightarrow> jsval list \<Rightarrow> (jsval list) parsed"
  and parse_members :: "nat \<Rightarrow> string \<Rightarrow> (string \<times> jsval) list \<Rightarrow> ((string \<times> jsval) list) parsed" where
  "parse_value 0 cs = OutOfFuel"
| "parse_value (Suc n) cs =
     (case skip_ws cs of
        [] \<Rightarrow> Invalid
      | c # r \<Rightarrow>
          if c = CHR ''{'' then
            (case skip_ws r of
               [] \<Rightarrow> Invalid
             | d # r' \<Rightarrow>
                 if d = CHR ''}'' then Parsed (JObj []) r'
                 else (case parse_members n r [] of
                         Parsed kvs r'' \<Rightarrow> Parsed (JObj kvs) r''
                       | Invalid \<Rightarrow> Invalid
                       | OutOfFuel \<Rightarrow> OutOfFuel))
          else if c = CHR ''['' then
            (case skip_ws r of
               [] \<Rightarrow> Invalid
             | d # r' \<Rightarrow>
                 if d = CHR '']'' then Parsed (JArr []) r'
                 else (case parse_elements n r [] of
                         Parsed xs r'' \<Rightarrow> Parsed (JArr xs) r''
                       | Invalid \<Rightarrow> Invalid
                       | OutOfFuel \<Rightarrow> OutOfFuel))
          else if c = CHR 0x22 then
            (case string_body r of None \<Rightarrow> Invalid | Some (s, r') \<Rightarrow> Parsed (JStr s) r')
          else if c = CHR ''-'' \<or> is_digit c then
            (case parse_number (c # r) of None \<Rightarrow> Invalid | Some (x, r') \<Rightarrow> Parsed (JNum x) r')
          else if starts_with (c # r) ''true'' then Parsed (JBool True) (drop 4 (c # r))
          else if starts_with (c # r) ''false'' then Parsed (JBool False) (drop 5 (c # r))
          else if starts_with (c # r) ''null'' then Parsed JNull (drop 4 (c # r))
          else Invalid)"
| "parse_elements 0 cs acc = OutOfFuel"
| "parse_elements (Suc n) cs acc =
     (case parse_value n cs of
        Parsed v r \<Rightarrow>
          (case skip_ws r of
             [] \<Rightarrow> Invalid
           | d # r' \<Rightarrow>
               if d = CHR '','' then parse_elements n r' (acc @ [v])
               else if d = CHR '']'' then Parsed (acc @ [v]) r'
               else Invalid)
      | Invalid \<Rightarrow> Invalid
      | OutOfFuel \<Rightarrow> OutOfFuel)"
| "parse_members 0 cs acc = OutOfFuel"
| "parse_members (Suc n) cs acc =
     (case skip_ws cs of
        [] \<Rightarrow> Invalid
      | q # r \<Rightarrow>
          if q \<noteq> CHR 0x22 then Invalid
          else
            (case string_body r of
               None \<Rightarrow> Invalid
             | Some (k, r1) \<Rightarrow>
                 (case skip_ws r1 of
                    [] \<Rightarrow> Invalid
                  | colon # r2 \<Rightarrow>
                      if colon \<noteq> CHR '':'' then Invalid
                      else
                        (case parse_value n r2 of
                           Parsed v r3 \<Rightarrow>
                             (case skip_ws r3 of
                                [] \<Rightarrow> Invalid
                              | d # r4 \<Rightarrow>
                                  if d = CHR '','' then parse_members n r4 (map_set k v acc)
                                  else if d = CHR ''}'' then Parsed (map_set k v acc) r4
                                  else Invalid)
                         | Invalid \<Rightarrow> Invalid
                         | OutOfFuel \<Rightarrow> OutOfFuel))))"

fun fuel_for :: "string \<Rightarrow> nat" where
  "fuel_for [] = Suc (Suc 0)"
| "fuel_for (c # cs) = Suc (Suc (fuel_for cs))"

text \<open>
  \<open>JSON.parse\<close>: one value, with nothing but white space after it; a \<open>SyntaxError\<close>
  otherwise. (The message of the error is specific to the engine; the model has one text.)
\<close>

definition JSON_parse :: "string \<Rightarrow> js_error + jsval" where
  "JSON_parse text =
     (case parse_value (fuel_for text) text of
        Parsed v rest \<Rightarrow>
          if skip_ws rest = [] then Inr v else Inl (SyntaxError ''Unexpected token in JSON'')
      | Invalid \<Rightarrow> Inl (SyntaxError ''Unexpected token in JSON'')
      | OutOfFuel \<Rightarrow> Inl (SyntaxError ''Unexpected token in JSON''))"

text \<open>
  The numbers that are finite and in the representation of the embedding: an integer, or
  \<open>m / 10 ^ k\<close> with \<open>k > 0\<close> and \<open>m\<close> no multiple of ten.
\<close>

definition num_ok :: "jsnum \<Rightarrow> bool" where
  "num_ok x = (case x of Fin i \<Rightarrow> True | Dec m k \<Rightarrow> 0 < k \<and> m mod 10 \<noteq> 0 | _ \<Rightarrow> False)"

text \<open>
  The values that \<open>JSON.stringify\<close> writes without loss: no \<open>undefined\<close>, only finite
  numbers, and no object with a repeated key (which an object of the platform cannot have).
\<close>

fun json_value :: "jsval \<Rightarrow> bool"
  and json_values :: "jsval list \<Rightarrow> bool"
  and json_members :: "(string \<times> jsval) list \<Rightarrow> bool" where
  "json_value JUndefined = False"
| "json_value JNull = True"
| "json_value (JBool b) = True"
| "json_value (JNum x) = num_ok x"
| "json_value (JStr s) = True"
| "json_value (JArr xs) = json_values xs"
| "json_value (JObj kvs) = (distinct (map fst kvs) \<and> json_members kvs)"
| "json_values [] = True"
| "json_values (x # xs) = (json_value x \<and> json_values xs)"
| "json_members [] = True"
| "json_members ((k, v) # kvs) = (json_value v \<and> json_members kvs)"

text \<open>
  Notions for reasoning about the parser: a text that can follow a number literal, and the
  results that the parser reaches with some amount of fuel.
\<close>

definition all_digits :: "string \<Rightarrow> bool" where
  "all_digits ds \<longleftrightarrow> (\<forall>c \<in> set ds. is_digit c)"

definition digit_end :: "string \<Rightarrow> bool" where
  "digit_end rest \<longleftrightarrow> (case rest of [] \<Rightarrow> True | c # _ \<Rightarrow> \<not> is_digit c)"

definition negative :: "jsnum \<Rightarrow> bool" where
  "negative x = (case x of Fin i \<Rightarrow> i < 0 | Dec m k \<Rightarrow> m < 0 | _ \<Rightarrow> False)"

definition number_end :: "string \<Rightarrow> bool" where
  "number_end rest \<longleftrightarrow>
     (case rest of [] \<Rightarrow> True
      | c # _ \<Rightarrow> \<not> is_digit c \<and> c \<noteq> CHR ''.'' \<and> c \<noteq> CHR ''e'' \<and> c \<noteq> CHR ''E'')"

definition parses :: "string \<Rightarrow> jsval \<Rightarrow> string \<Rightarrow> bool" where
  "parses cs v r \<longleftrightarrow> (\<exists>n. parse_value n cs = Parsed v r)"

definition parses_elements :: "string \<Rightarrow> jsval list \<Rightarrow> jsval list \<Rightarrow> string \<Rightarrow> bool" where
  "parses_elements cs acc xs r \<longleftrightarrow> (\<exists>n. parse_elements n cs acc = Parsed xs r)"

definition parses_members ::
  "string \<Rightarrow> (string \<times> jsval) list \<Rightarrow> (string \<times> jsval) list \<Rightarrow> string \<Rightarrow> bool" where
  "parses_members cs acc kvs r \<longleftrightarrow> (\<exists>n. parse_members n cs acc = Parsed kvs r)"

section \<open>Protocol handler (\<open>ProtocolHandler\<close> in \<open>src/cmate-front/src/communication/types.ts\<close>)\<close>

text \<open>The seven message kinds of \<open>MessageType\<close>.\<close>

definition messageTypes :: "string list" where
  "messageTypes = [''request'', ''response'', ''notification'', ''ack'', ''error'', ''ping'', ''pong'']"

text \<open>
  A value of the interface \<open>MessageEnvelope\<close>, and the object it is at run time. The fields
  \<open>version\<close> and \<open>type\<close> are strings here, so that the record also covers envelopes with an
  unexpected version or kind.
\<close>

record MessageEnvelope =
  m_version :: string
  m_type :: string
  m_id :: string
  m_timestamp :: jsnum
  m_channel :: string
  m_payload :: jsval
  m_requiresACK :: "bool option"

definition envelope_js :: "MessageEnvelope \<Rightarrow> jsval" where
  "envelope_js e =
     JObj ([(''version'', JStr (m_version e)), (''type'', JStr (m_type e)), (''id'', JStr (m_id e)),
            (''timestamp'', JNum (m_timestamp e)), (''channel'', JStr (m_channel e)),
            (''payload'', m_payload e)]
           @ (case m_requiresACK e of None \<Rightarrow> [] | Some b \<Rightarrow> [(''requiresACK'', JBool b)]))"

text \<open>
  \<open>isValidMessage\<close>: the value of the chain of \<open>&&\<close>, which is the first operand that is not
  truthy, or the last operand.
\<close>

definition isValidMessage :: "jsval \<Rightarrow> jsval" where
  "isValidMessage msg =
     (if \<not> truthy msg then msg
      else if typeof msg \<noteq> ''object'' then JBool False
      else if get_prop msg ''version'' \<noteq> JStr ''1.0'' then JBool False
      else if \<not> truthy (get_prop msg ''type'') then get_prop msg ''type''
      else if \<not> truthy (get_prop msg ''id'') then get_prop msg ''id''
      else if typeof (get_prop msg ''timestamp'') \<noteq> ''number'' then JBool False
      else get_prop msg ''channel'')"

definition validateAndNormalize :: "jsval \<Rightarrow> js_error + jsval" where
  "validateAndNormalize msg =
     (if \<not> truthy (isValidMessage msg)
      then Inl (Error ''Invalid message format: missing required fields or invalid version'')
      else Inr msg)"

text \<open>
  \<open>parseMessage\<close>: both \<open>JSON.parse\<close> and \<open>validateAndNormalize\<close> are inside the \<open>try\<close>
  block, and the \<open>catch\<close> clause throws a new \<open>Error\<close> for whatever was thrown.
\<close>

definition parseMessage :: "string \<Rightarrow> js_error + jsval" where
  "parseMessage data =
     (case bindE (JSON_parse data) validateAndNormalize of
        Inl err \<Rightarrow> Inl (Error (''Failed to parse message: '' @ message err))
      | Inr msg \<Rightarrow> Inr msg)"

text \<open>
  \<open>serializeMessage\<close>: \<open>JSON.stringify\<close> of the envelope, which is an object, so that the
  result is a string.
\<close>

definition serializeMessage :: "MessageEnvelope \<Rightarrow> string" where
  "serializeMessage msg = (case JSON_stringify (envelope_js msg) of None \<Rightarrow> [] | Some text \<Rightarrow> text)"

text \<open>
  The invariant of the specification, on envelopes: the version is that of the protocol and
  \<open>type\<close>, \<open>id\<close> and \<open>channel\<close> are not empty (the timestamp is a number by its type).
\<close>

definition wellFormed :: "MessageEnvelope \<Rightarrow> bool" where
  "wellFormed e \<longleftrightarrow> m_version e = ''1.0'' \<and> m_type e \<noteq> [] \<and> m_id e \<noteq> [] \<and> m_channel e \<noteq> []"

text \<open>
  What it is for a parsed value to violate that invariant, in the words of the specification:
  it is no object, or its version is not that of the protocol, or one of \<open>type\<close>, \<open>id\<close>,
  \<open>channel\<close> is lacking or empty, or its timestamp is lacking or not a number.
\<close>

definition absent_or_empty :: "jsval \<Rightarrow> bool" where
  "absent_or_empty v \<longleftrightarrow> v = JUndefined \<or> v = JNull \<or> v = JStr []"

definition violatesInvariants :: "jsval \<Rightarrow> bool" where
  "violatesInvariants msg \<longleftrightarrow>
     typeof msg \<noteq> ''object'' \<or> msg = JNull
     \<or> get_prop msg ''version'' \<noteq> JStr ''1.0''
     \<or> absent_or_empty (get_prop msg ''type'')
     \<or> absent_or_empty (get_prop msg ''id'')
     \<or> typeof (get_prop msg ''timestamp'') \<noteq> ''number''
     \<or> absent_or_empty (get_prop msg ''channel'')"

text \<open>Sample data: wire texts and envelopes.\<close>

definition unknownTypeText :: string where
  "unknownTypeText = ''{'' @ dquote @ ''version'' @ dquote @ '':'' @ dquote @ ''1.0'' @ dquote @ '',''
     @ dquote @ ''type'' @ dquote @ '':'' @ dquote @ ''bogus'' @ dquote @ '',''
     @ dquote @ ''id'' @ dquote @ '':'' @ dquote @ ''42'' @ dquote @ '',''
     @ dquote @ ''timestamp'' @ dquote @ '':1700000000000,''
     @ dquote @ ''channel'' @ dquote @ '':'' @ dquote @ ''command'' @ dquote @ ''}''"

definition pingEnvelope :: "jsnum \<Rightarrow> jsval \<Rightarrow> MessageEnvelope" where
  "pingEnvelope t p =
     \<lparr>m_version = ''1.0'', m_type = ''ping'', m_id = ''42'', m_timestamp = t,
      m_channel = ''heartbeat'', m_payload = p, m_requiresACK = None\<rparr>"

definition unknownTypeMessage :: jsval where
  "unknownTypeMessage = JObj
       [(''version'', JStr ''1.0''), (''type'', JStr ''bogus''),
        (''id'', JStr ''42''), (''timestamp'', JNum (Fin 1700000000000)),
        (''channel'', JStr ''command'')]"

definition requestEnvelope :: MessageEnvelope where
  "requestEnvelope =
     \<lparr>m_version = ''1.0'', m_type = ''request'', m_id = ''42'', m_timestamp = Fin 1700000000000,
      m_channel = ''command'',
      m_payload = JObj
        [(''id'', JStr ''7''), (''timestamp'', JNum (Fin 1700000000000)),
         (''commandId'', JStr ''file.create''),
         (''payload'', JObj [(''type'', JStr ''create''), (''targetPath'', JStr ''a.txt''),
                            (''content'', JStr [])]),
         (''tags'', JArr [JBool True, JNull, JNum (Fin (- 3)), JNum (Dec 125 1)])],
      m_requiresACK = Some True\<rparr>"

section \<open>Properties of the state manager\<close>

subsection \<open>History\<close>

lemma take_append_take: "take n (xs @ take n ys) = take n (xs @ ys)"
  by (simp add: min_def)

lemma emit_frame:
  "emit m ev w = (p, w') \<Longrightarrow> histArrays w' = histArrays w \<and> stateObjs w' = stateObjs w \<and> uuidCalls w' = uuidCalls w \<and> nextRef w' = nextRef w \<and> opsArrays w' = opsArrays w"
  by (auto simp: emit_def)

lemma addToHistory_step:
  assumes "addToHistory uuid m e w = (i, w')"
  shows "i = uuid (uuidCalls w)"
    and "uuidCalls w' = Suc (uuidCalls w)"
    and "currentHistory m w' = take 50 (HistoryEntryNoId.extend e (HistoryEntry.fields i) # currentHistory m w)"
  using assms
  by (auto simp: addToHistory_def Let_def currentHistory_def split: prod.splits dest!: emit_frame)

lemma addAll:
  "addAllToHistory uuid m es w = (ids, w') \<Longrightarrow>
     ids = map h_id (fullEntries uuid (uuidCalls w) es) \<and>
     uuidCalls w' = uuidCalls w + length es \<and>
     take 50 (currentHistory m w') = take 50 (rev (fullEntries uuid (uuidCalls w) es) @ currentHistory m w)"
proof (induction es arbitrary: w ids w')
  case Nil
  then show ?case by simp
next
  case (Cons e es)
  obtain i w1 where s1: "addToHistory uuid m e w = (i, w1)" by (cases "addToHistory uuid m e w")
  obtain js w2 where s2: "addAllToHistory uuid m es w1 = (js, w2)" by (cases "addAllToHistory uuid m es w1")
  from Cons.prems s1 s2 have eq: "ids = i # js" "w' = w2" by auto
  note h1 = addToHistory_step[OF s1]
  note ih = Cons.IH[OF s2]
  let ?f = "HistoryEntryNoId.extend e (HistoryEntry.fields (uuid (uuidCalls w)))"
  have "take 50 (currentHistory m w2) = take 50 (rev (fullEntries uuid (Suc (uuidCalls w)) es) @ currentHistory m w1)"
    using ih h1(2) by simp
  also have "\<dots> = take 50 (rev (fullEntries uuid (Suc (uuidCalls w)) es) @ take 50 (?f # currentHistory m w))"
    using h1(1,3) by simp
  also have "\<dots> = take 50 (rev (fullEntries uuid (Suc (uuidCalls w)) es) @ (?f # currentHistory m w))"
    by (rule take_append_take)
  finally have hist: "take 50 (currentHistory m w2) = take 50 (rev (fullEntries uuid (uuidCalls w) (e # es)) @ currentHistory m w)"
    by simp
  have "h_id ?f = uuid (uuidCalls w)" by (simp add: HistoryEntryNoId.defs HistoryEntry.defs)
  then have ids: "i # js = map h_id (fullEntries uuid (uuidCalls w) (e # es))"
    using ih h1(1,2) by simp
  show ?case using hist ids ih h1(2) by (simp add: eq)
qed

lemma history_capped: "addToHistory uuid m e w = (i, w') \<Longrightarrow> length (currentHistory m w') \<le> 50"
  by (drule addToHistory_step(3)) simp

lemma ids_fullEntries: "map h_id (fullEntries uuid k es) = map uuid [k ..< k + length es]"
  by (induction es arbitrary: k) (simp_all add: upt_rec HistoryEntryNoId.defs HistoryEntry.defs)

lemma truncate_fullEntries: "map HistoryEntryNoId.truncate (fullEntries uuid k es) = es"
  by (induction es arbitrary: k) (simp_all add: HistoryEntryNoId.defs HistoryEntry.defs)

lemma addAll_capped:
  "addAllToHistory uuid m es w = (ids, w') \<Longrightarrow> length (currentHistory m w) \<le> 50
     \<Longrightarrow> length (currentHistory m w') \<le> 50"
proof (induction es arbitrary: w ids w')
  case Nil then show ?case by simp
next
  case (Cons e es)
  obtain i w1 where s1: "addToHistory uuid m e w = (i, w1)" by (cases "addToHistory uuid m e w")
  obtain js w2 where s2: "addAllToHistory uuid m es w1 = (js, w2)" by (cases "addAllToHistory uuid m es w1")
  from Cons.prems s1 s2 have "w' = w2" by auto
  with Cons.IH[OF s2 history_capped[OF s1]] show ?case by simp
qed

lemma nth_fullEntries:
  "j < length es \<Longrightarrow> fullEntries uuid k es ! j = HistoryEntryNoId.extend (es ! j) (HistoryEntry.fields (uuid (k + j)))"
proof (induction es arbitrary: k j)
  case Nil then show ?case by simp
next
  case (Cons e es) then show ?case by (cases j) simp_all
qed

lemma length_fullEntries: "length (fullEntries uuid k es) = length es"
  by (induction es arbitrary: k) simp_all

text \<open>
  Claim C9. Starting from an empty history, 51 calls of \<open>addToHistory\<close> leave exactly 50
  entries, the most recently added first: the arguments of calls 2 to 51 in reverse order, the
  entry of the first call being evicted. The ids returned are the results of the successive
  calls of \<open>generateUUID\<close>, and right after each call the head of the history is the entry
  just passed, carrying the id that the call returned.
\<close>

theorem addToHistory_51:
  assumes len: "length es = 51"
    and empty: "currentHistory m w = []"
    and run: "addAllToHistory uuid m es w = (ids, w')"
  shows "length (currentHistory m w') = 50
       \<and> map HistoryEntryNoId.truncate (currentHistory m w') = rev (tl es)
       \<and> map h_id (currentHistory m w') = rev (tl ids)
       \<and> ids = map uuid [uuidCalls w ..< uuidCalls w + 51]
       \<and> (\<forall>k < 51. hd (currentHistory m (snd (addAllToHistory uuid m (take (Suc k) es) w)))
               = HistoryEntryNoId.extend (es ! k) (HistoryEntry.fields (ids ! k)))"
proof -
  let ?k = "uuidCalls w"
  obtain e es' where es: "es = e # es'" and len': "length es' = 50"
    using len by (cases es) auto
  from addAll[OF run] have ids: "ids = map h_id (fullEntries uuid ?k es)"
    and h: "take 50 (currentHistory m w') = take 50 (rev (fullEntries uuid ?k es) @ currentHistory m w)"
    by simp_all
  have ne: "es \<noteq> []" using es by simp
  have capped: "length (currentHistory m w') \<le> 50"
    using addAll_capped[OF run] empty by simp
  have hist: "currentHistory m w' = rev (fullEntries uuid (Suc ?k) es')"
    using h capped empty len' by (simp add: es length_fullEntries)
  have c1: "length (currentHistory m w') = 50" by (simp add: hist length_fullEntries len')
  have c2: "map HistoryEntryNoId.truncate (currentHistory m w') = rev (tl es)"
    by (simp add: hist es rev_map[symmetric] truncate_fullEntries)
  have c3: "map h_id (currentHistory m w') = rev (tl ids)"
    by (simp add: hist es ids rev_map[symmetric])
  have c4: "ids = map uuid [?k ..< ?k + 51]"
    using ids len by (simp add: ids_fullEntries)
  have c5: "hd (currentHistory m (snd (addAllToHistory uuid m (take (Suc k) es) w)))
               = HistoryEntryNoId.extend (es ! k) (HistoryEntry.fields (ids ! k))" if k: "k < 51" for k
  proof -
    obtain jk wk where rk: "addAllToHistory uuid m (take (Suc k) es) w = (jk, wk)"
      by (cases "addAllToHistory uuid m (take (Suc k) es) w")
    have lk: "length (take (Suc k) es) = Suc k" using k len by simp
    from addAll[OF rk] have "take 50 (currentHistory m wk) = take 50 (rev (fullEntries uuid ?k (take (Suc k) es)))"
      using empty by simp
    then have "hd (take 50 (currentHistory m wk)) = hd (take 50 (rev (fullEntries uuid ?k (take (Suc k) es))))"
      by simp
    then have "hd (currentHistory m wk) = hd (rev (fullEntries uuid ?k (take (Suc k) es)))"
      by (simp add: hd_take)
    also have "\<dots> = fullEntries uuid ?k (take (Suc k) es) ! k"
    proof -
      have l: "length (fullEntries uuid ?k (take (Suc k) es)) = Suc k"
        using lk by (simp only: length_fullEntries)
      then have "fullEntries uuid ?k (take (Suc k) es) \<noteq> []" by auto
      then show ?thesis using l by (simp add: hd_rev last_conv_nth del: fullEntries.simps take_Suc_Cons)
    qed
    also have "\<dots> = HistoryEntryNoId.extend (es ! k) (HistoryEntry.fields (uuid (?k + k)))"
      using lk k len by (simp add: nth_fullEntries)
    also have "uuid (?k + k) = ids ! k" using c4 k by simp
    finally show ?thesis using rk by simp
  qed
  show ?thesis using c1 c2 c3 c4 c5 by blast
qed

theorem addToHistory_51_witness:
  "length (map sampleEntry [0..<51]) = 51
   \<and> currentHistory (fst (newStateManager emptyWorld)) (snd (newStateManager emptyWorld)) = []
   \<and> length (currentHistory (fst (newStateManager emptyWorld))
         (snd (addAllToHistory sampleUuid (fst (newStateManager emptyWorld)) (map sampleEntry [0..<51])
                (snd (newStateManager emptyWorld))))) = 50
   \<and> map HistoryEntryNoId.truncate (currentHistory (fst (newStateManager emptyWorld))
         (snd (addAllToHistory sampleUuid (fst (newStateManager emptyWorld)) (map sampleEntry [0..<51])
                (snd (newStateManager emptyWorld))))) = rev (map sampleEntry [1..<51])
   \<and> fst (addAllToHistory sampleUuid (fst (newStateManager emptyWorld)) (map sampleEntry [0..<51])
                (snd (newStateManager emptyWorld))) = map sampleUuid [0..<51]"
proof -
  let ?m = "fst (newStateManager emptyWorld)" and ?w = "snd (newStateManager emptyWorld)"
  let ?es = "map sampleEntry [0..<51]"
  let ?r = "addAllToHistory sampleUuid ?m ?es ?w"
  have len: "length ?es = 51" by simp
  have empty: "currentHistory ?m ?w = []"
    by (simp add: newStateManager_def emptyWorld_def currentHistory_def initialState_def Let_def)
  have k: "uuidCalls ?w = 0"
    by (simp add: newStateManager_def emptyWorld_def Let_def)
  have run: "?r = (fst ?r, snd ?r)" by simp
  have tl: "tl ?es = map sampleEntry [1..<51]"
    by (simp add: upt_rec[of 0 51] del: upt_Suc)
  from addToHistory_51[OF len empty run] show ?thesis
    using len empty k tl by simp
qed

subsection \<open>\<open>getState\<close>\<close>

lemmas manager_defs = newStateManager_def emptyWorld_def initialState_def getState_def
  currentHistory_def currentOperations_def pushHistory_def pushOperation_def assignSelectedAI_def

text \<open>
  The object that \<open>getState\<close> returns is a new one, and assigning one of its fields leaves the
  stored state as it was.
\<close>

lemma getState_copies_fields:
  "state m < nextRef w \<Longrightarrow>
   stateObjs (assignSelectedAI (fst (getState m w)) v (snd (getState m w))) (state m) = stateObjs w (state m)"
  by (simp add: manager_defs Let_def)

text \<open>
  Its \<open>history\<close> and \<open>operations\<close> fields refer to the arrays of the stored state: an element
  pushed through the returned object appears in the stored state.
\<close>

lemma getState_shares_arrays:
  "currentHistory m (pushHistory (fst (getState m w)) x (snd (getState m w))) = currentHistory m w @ [x]"
  "currentOperations m (pushOperation (fst (getState m w)) y (snd (getState m w))) = currentOperations m w @ [y]"
  by (simp_all add: manager_defs Let_def)

text \<open>
  Claim C4 (independent copy, nested lists included) fails on the code. On a new manager, whose
  history is empty, \<open>getState\<close> returns an object other than the stored one, and
  \<open>getState().history.push(x)\<close> makes \<open>x\<close> an entry of the stored history.
\<close>

theorem getState_shares_history:
  "currentHistory (fst (newStateManager emptyWorld)) (snd (newStateManager emptyWorld)) = []
   \<and> fst (getState (fst (newStateManager emptyWorld)) (snd (newStateManager emptyWorld)))
        \<noteq> state (fst (newStateManager emptyWorld))
   \<and> currentHistory (fst (newStateManager emptyWorld))
        (pushHistory (fst (getState (fst (newStateManager emptyWorld)) (snd (newStateManager emptyWorld))))
           sampleFullEntry
           (snd (getState (fst (newStateManager emptyWorld)) (snd (newStateManager emptyWorld)))))
       = [sampleFullEntry]"
  by (simp add: manager_defs Let_def)

subsection \<open>\<open>emit\<close>\<close>

text \<open>Every listener is called, once, whatever the others do.\<close>

lemma emit_calls_every_listener:
  "length (emitPromises m s w) = length (changeListeners m)"
  "i < length (changeListeners m) \<Longrightarrow> emitPromises m s w ! i = fst (callListener w s (changeListeners m ! i))"
  by (simp_all add: emitPromises_def)

lemma promise_all_Fulfilled: "\<forall>p \<in> set ps. \<exists>x. p = Fulfilled x \<Longrightarrow> \<exists>xs. promise_all ps = Fulfilled xs"
  by (induction ps) auto

text \<open>A listener that throws synchronously does not make \<open>emit\<close> fail.\<close>

lemma emit_isolates_throw:
  assumes "\<forall>l \<in> set (changeListeners m). \<exists>e. l w s = Throws e \<or> l w s = ReturnsVoid \<or> l w s = ReturnsPromise (Fulfilled ())"
  shows "fst (emit m s w) = Fulfilled ()"
proof -
  have "\<forall>p \<in> set (emitPromises m s w). \<exists>x. p = Fulfilled x"
    using assms by (fastforce simp: emitPromises_def callListener_def)
  then obtain xs where "promise_all (emitPromises m s w) = Fulfilled xs"
    using promise_all_Fulfilled by blast
  then show ?thesis by (simp add: emit_def)
qed

lemma promise_all_Rejected: "Rejected e \<in> set ps \<Longrightarrow> \<exists>e'. promise_all ps = Rejected e'"
proof (induction ps)
  case Nil then show ?case by simp
next
  case (Cons p ps) then show ?case by (cases p) (auto split: settled.splits)
qed

text \<open>A listener whose promise is rejected makes \<open>emit\<close> reject, whatever the other listeners do.\<close>

lemma emit_fails_on_rejection:
  assumes "l \<in> set (changeListeners m)" "l w s = ReturnsPromise (Rejected e)"
  shows "\<exists>e'. fst (emit m s w) = Rejected e'"
proof -
  have "Rejected e \<in> set (emitPromises m s w)"
    using assms by (force simp: emitPromises_def callListener_def)
  then obtain e' where "promise_all (emitPromises m s w) = Rejected e'"
    using promise_all_Rejected by blast
  then show ?thesis by (simp add: emit_def)
qed

text \<open>
  Claim C5 (no listener failure makes \<open>emit\<close> fail) fails on the code for an asynchronous
  rejection. With a listener whose promise is rejected subscribed before an ordinary one, both
  listeners are called, and the promise that \<open>emit\<close> returns is rejected.
\<close>

theorem emit_rejects_on_async_failure:
  "changeListeners (on quietListener (on rejectingListener (fst (newStateManager emptyWorld))))
     = [rejectingListener, quietListener]
   \<and> emitPromises (on quietListener (on rejectingListener (fst (newStateManager emptyWorld)))) 2
       (snd (newStateManager emptyWorld))
     = [Rejected (Error ''listener failed''), Fulfilled ()]
   \<and> fst (emit (on quietListener (on rejectingListener (fst (newStateManager emptyWorld)))) 2
       (snd (newStateManager emptyWorld)))
     = Rejected (Error ''listener failed'')"
  by (simp add: emit_def emitPromises_def callListener_def rejectingListener_def quietListener_def
      on_def newStateManager_def Let_def)


section \<open>Properties of the transport\<close>

lemma step_delayInv: "delayInv c \<Longrightarrow> step getUrl e c = Some c' \<Longrightarrow> delayInv c'"
  by (cases e)
     (auto simp: delayInv_def connect_def tryConnect_def close_def onOpen_def onMessage_def
        onError_def onClose_def timerCallback_def Let_def split: if_splits option.splits)

lemma run_delayInv: "delayInv c \<Longrightarrow> run getUrl es c = Some c' \<Longrightarrow> delayInv c'"
  by (induction es arbitrary: c) (auto split: option.splits dest: step_delayInv)

lemma reachable_delayInv: "reachable getUrl c \<Longrightarrow> delayInv c"
proof -
  assume "reachable getUrl c"
  then obtain es where "run getUrl es newWebSocketClient = Some c"
    by (auto simp: reachable_def)
  moreover have "delayInv newWebSocketClient"
    by (simp add: delayInv_def newWebSocketClient_def)
  ultimately show ?thesis by (rule run_delayInv[rotated])
qed

lemma step_guardInv: "guardInv c \<Longrightarrow> step getUrl e c = Some c' \<Longrightarrow> guardInv c'"
  by (cases e)
     (auto simp: guardInv_def connect_def tryConnect_def close_def onOpen_def onMessage_def
        onError_def onClose_def timerCallback_def readyState_def Let_def nth_append nth_list_update
        split: if_splits option.splits)

lemma run_guardInv: "guardInv c \<Longrightarrow> run getUrl es c = Some c' \<Longrightarrow> guardInv c'"
  by (induction es arbitrary: c) (auto split: option.splits dest: step_guardInv)

lemma reachable_guardInv: "reachable getUrl c \<Longrightarrow> guardInv c"
proof -
  assume "reachable getUrl c"
  then obtain es where "run getUrl es newWebSocketClient = Some c"
    by (auto simp: reachable_def)
  moreover have "guardInv newWebSocketClient"
    by (simp add: guardInv_def newWebSocketClient_def)
  ultimately show ?thesis by (rule run_guardInv[rotated])
qed

text \<open>
  The guard of \<open>connect\<close> holds in no reachable state (\<open>connecting\<close> is cleared when a socket
  opens), so every call of \<open>connect\<close> creates a socket.
\<close>

lemma connect_always_opens:
  "reachable getUrl c \<Longrightarrow> sockets (connect getUrl c) = sockets c @ [CONNECTING] \<and> ws (connect getUrl c) = Some (length (sockets c))"
  by (drule reachable_guardInv) (auto simp: guardInv_def connect_def tryConnect_def split: option.splits)

text \<open>
  Claim C3. In every reachable state the backoff delay is between 1000 and 30000 ms. An
  unplanned disconnect (a close event while \<open>shouldReconnect\<close> holds) schedules a reconnect after
  the current delay; when that timer runs out the delay becomes twice its value, capped at
  30000 ms, which is strictly larger unless the cap was reached. A socket that opens resets the
  delay to 1000 ms.
\<close>

theorem backoff_policy:
  assumes "reachable getUrl c"
  shows "1000 \<le> reconnectDelay c \<and> reconnectDelay c \<le> 30000
     \<and> (\<forall>i c'. step getUrl (SocketCloses i) c = Some c' \<and> shouldReconnect c
           \<longrightarrow> timers c' = timers c @ [reconnectDelay c] \<and> reconnectDelay c' = reconnectDelay c)
     \<and> (\<forall>j c'. step getUrl (TimerFires j) c = Some c'
           \<longrightarrow> reconnectDelay c' = min (2 * reconnectDelay c) 30000
             \<and> (reconnectDelay c < 30000 \<longrightarrow> reconnectDelay c < reconnectDelay c'))
     \<and> (\<forall>i c'. step getUrl (SocketOpens i) c = Some c' \<longrightarrow> reconnectDelay c' = 1000)"
proof -
  from assms have inv: "maxDelay c = 30000" "reconnectDelay c \<in> {1000, 2000, 4000, 8000, 16000, 30000}"
    by (auto dest: reachable_delayInv simp: delayInv_def)
  have a: "1000 \<le> reconnectDelay c \<and> reconnectDelay c \<le> 30000" using inv(2) by auto
  have b: "timers c' = timers c @ [reconnectDelay c] \<and> reconnectDelay c' = reconnectDelay c"
    if "step getUrl (SocketCloses i) c = Some c'" "shouldReconnect c" for i c'
    using that by (auto simp: onClose_def Let_def split: if_splits)
  have d: "reconnectDelay c' = min (2 * reconnectDelay c) 30000
             \<and> (reconnectDelay c < 30000 \<longrightarrow> reconnectDelay c < reconnectDelay c')"
    if "step getUrl (TimerFires j) c = Some c'" for j c'
    using that inv a by (auto simp: timerCallback_def tryConnect_def split: if_splits)
  have e: "reconnectDelay c' = 1000" if "step getUrl (SocketOpens i) c = Some c'" for i c'
    using that by (auto simp: onOpen_def split: if_splits)
  show ?thesis using a b d e by blast
qed


lemmas transport_defs = newWebSocketClient_def connect_def tryConnect_def close_def onOpen_def
  onMessage_def onError_def onClose_def timerCallback_def readyState_def sampleUrl_def

lemma reachable_retryingClient: "reachable sampleUrl retryingClient"
  unfolding reachable_def
  by (rule exI[of _ "[CallConnect, SocketCloses 0, TimerFires 0, CallConnect, SocketCloses 1]"])
     (simp add: transport_defs retryingClient_def Let_def)

theorem backoff_policy_witness:
  "reachable sampleUrl retryingClient
   \<and> 1000 \<le> reconnectDelay retryingClient \<and> reconnectDelay retryingClient \<le> 30000
   \<and> step sampleUrl (SocketCloses 2) retryingClient = Some (onClose 2 retryingClient)
   \<and> shouldReconnect retryingClient
   \<and> timers (onClose 2 retryingClient) = [2000, 2000]
   \<and> reconnectDelay (onClose 2 retryingClient) = 2000
   \<and> step sampleUrl (TimerFires 0) retryingClient
        = Some (timerCallback sampleUrl (retryingClient\<lparr>timers := []\<rparr>))
   \<and> reconnectDelay (timerCallback sampleUrl (retryingClient\<lparr>timers := []\<rparr>)) = 4000
   \<and> step sampleUrl (SocketOpens 2) retryingClient = Some (onOpen 2 retryingClient)
   \<and> reconnectDelay (onOpen 2 retryingClient) = 1000"
proof -
  have s1: "step sampleUrl (SocketCloses 2) retryingClient = Some (onClose 2 retryingClient)"
    by (simp add: retryingClient_def readyState_def)
  have s2: "step sampleUrl (TimerFires 0) retryingClient
        = Some (timerCallback sampleUrl (retryingClient\<lparr>timers := []\<rparr>))"
    by (simp add: retryingClient_def)
  have s3: "step sampleUrl (SocketOpens 2) retryingClient = Some (onOpen 2 retryingClient)"
    by (simp add: retryingClient_def readyState_def)
  have sr: "shouldReconnect retryingClient" "timers retryingClient = [2000]"
      "reconnectDelay retryingClient = 2000"
    by (simp_all add: retryingClient_def)
  note P = backoff_policy[OF reachable_retryingClient]
  have a: "1000 \<le> reconnectDelay retryingClient \<and> reconnectDelay retryingClient \<le> 30000"
    using P by blast
  have b: "timers (onClose 2 retryingClient) = timers retryingClient @ [reconnectDelay retryingClient]
         \<and> reconnectDelay (onClose 2 retryingClient) = reconnectDelay retryingClient"
    using P s1 sr(1) by blast
  have d: "reconnectDelay (timerCallback sampleUrl (retryingClient\<lparr>timers := []\<rparr>))
         = min (2 * reconnectDelay retryingClient) 30000"
    using P s2 by blast
  have e: "reconnectDelay (onOpen 2 retryingClient) = 1000"
    using P s3 by blast
  show ?thesis
    using reachable_retryingClient a b d e s1 s2 s3 sr by simp
qed

text \<open>
  Claim C8 (\<open>connect\<close> while open is a no-op) fails on the code. After \<open>connect\<close> and the
  \<open>open\<close> event of the socket, the connection is open; a second call of \<open>connect\<close> then
  creates a second socket and makes it the current one.
\<close>

theorem connect_while_open_opens_second_socket:
  "run sampleUrl [CallConnect, SocketOpens 0] newWebSocketClient = Some openClient
   \<and> ws openClient = Some 0 \<and> readyState openClient 0 = Some OPEN
   \<and> sockets (connect sampleUrl openClient) = [OPEN, CONNECTING]
   \<and> ws (connect sampleUrl openClient) = Some 1
   \<and> connect sampleUrl openClient \<noteq> openClient"
  by (simp add: transport_defs openClient_def)

section \<open>Properties of the command registry\<close>

text \<open>
  Claim C7. When the command of a request is registered and the handler's \<open>validate\<close> returns
  a result that is not valid, \<open>execute\<close> resolves with the response of status \<open>error\<close> and
  code \<open>VALIDATION_ERROR\<close> whose \<open>details.errors\<close> is the error list of the validator, and the
  only handler method called is \<open>validate\<close>: the handler's \<open>execute\<close> is not called.
\<close>

theorem validation_failure_response:
  assumes "map_of (commands reg) (r_commandId request) = Some descriptor"
    and "validate (d_handler descriptor) (JObj (r_payload request)) = Inr validation"
    and "\<not> valid validation"
  shows "fst (registryExecute reg request s) =
           Fulfilled \<lparr>o_id = r_id request, o_status = ''error'', o_data = None,
              o_error = Some \<lparr>e_code = ''VALIDATION_ERROR'', e_message = ''Payload validation failed'',
                               e_details = Some [(''errors'', errorsValue validation)]\<rparr>,
              o_metadata = None, o_timestamp = Fin (now s)\<rparr>
       \<and> calls (snd (registryExecute reg request s)) = calls s @ [(r_commandId request, ''validate'')]"
  using assms by (simp add: registryExecute_def errorResponse_def logTo_def Let_def)

lemmas registry_defs = registryExecute_def errorResponse_def logTo_def register_def
  newCommandRegistry_def sampleRegistry_def sampleRequest_def sampleEnv_def fileCreateDescriptor_def
  FileOpsHandler_def errorsValue_def

lemmas fileOps_defs = fileOpsValidate_def validateFilePath_def validationResult_def bindE_def
  js_get_def opt_includes_def opt_startsWith_def missingTargetPayload_def numericTargetPayload_def

lemma sample_lookup: "map_of (commands sampleRegistry) ''file.create'' = Some fileCreateDescriptor"
  by (simp add: registry_defs)

lemma sample_validate_missing:
  "validate (d_handler fileCreateDescriptor) (JObj missingTargetPayload)
     = Inr \<lparr>valid = False, errors = Some [''Target path is required'']\<rparr>"
  by (simp add: registry_defs fileOps_defs)

theorem validation_failure_response_witness:
  "map_of (commands sampleRegistry) (r_commandId (sampleRequest missingTargetPayload)) = Some fileCreateDescriptor
   \<and> validate (d_handler fileCreateDescriptor) (JObj (r_payload (sampleRequest missingTargetPayload)))
       = Inr \<lparr>valid = False, errors = Some [''Target path is required'']\<rparr>
   \<and> \<not> valid \<lparr>valid = False, errors = Some [''Target path is required'']\<rparr>
   \<and> fst (registryExecute sampleRegistry (sampleRequest missingTargetPayload) sampleEnv) =
         Fulfilled \<lparr>o_id = ''req-1'', o_status = ''error'', o_data = None,
            o_error = Some \<lparr>e_code = ''VALIDATION_ERROR'', e_message = ''Payload validation failed'',
                             e_details = Some [(''errors'', JArr [JStr ''Target path is required''])]\<rparr>,
            o_metadata = None, o_timestamp = Fin 1700000000000\<rparr>
   \<and> calls (snd (registryExecute sampleRegistry (sampleRequest missingTargetPayload) sampleEnv))
       = [(''file.create'', ''validate'')]"
proof -
  have l: "map_of (commands sampleRegistry) (r_commandId (sampleRequest missingTargetPayload)) = Some fileCreateDescriptor"
    using sample_lookup by (simp add: sampleRequest_def)
  have v: "validate (d_handler fileCreateDescriptor) (JObj (r_payload (sampleRequest missingTargetPayload)))
       = Inr \<lparr>valid = False, errors = Some [''Target path is required'']\<rparr>"
    using sample_validate_missing by (simp add: sampleRequest_def)
  have n: "\<not> valid \<lparr>valid = False, errors = Some [''Target path is required'']\<rparr>" by simp
  from validation_failure_response[OF l v n, of sampleEnv] l v
  show ?thesis by (simp add: sampleRequest_def sampleEnv_def errorsValue_def)
qed

text \<open>
  Claim C1 (every failure becomes a response of status \<open>error\<close>) fails on the code when
  \<open>validate\<close> throws. For \<open>file.create\<close> with the payload
  \<open>{type: 'create', targetPath: 5, content: ''}\<close> the validator of the file handler calls
  \<open>includes\<close> on the number and throws a \<open>TypeError\<close>; the call is outside the \<open>try\<close> block of
  \<open>CommandRegistry.execute\<close>, so the promise is rejected with that error.
\<close>

theorem execute_rejects_when_validate_throws:
  "map_of (commands sampleRegistry) (r_commandId (sampleRequest numericTargetPayload)) = Some fileCreateDescriptor
   \<and> fileOpsValidate (JObj numericTargetPayload) = Inl (TypeError ''includes is not a function'')
   \<and> fst (registryExecute sampleRegistry (sampleRequest numericTargetPayload) sampleEnv)
       = Rejected (TypeError ''includes is not a function'')"
  by (simp add: registry_defs fileOps_defs)

text \<open>An exception of \<open>validate\<close> is the only way for the promise to be rejected.\<close>

lemma registryExecute_rejects_iff:
  "fst (registryExecute reg request s) = Rejected e \<longleftrightarrow>
     (\<exists>d. map_of (commands reg) (r_commandId request) = Some d
          \<and> validate (d_handler d) (JObj (r_payload request)) = Inl e)"
  by (auto simp: registryExecute_def Let_def split: option.splits sum.splits prod.splits settled.splits)

lemma registryExecute_unknown:
  "map_of (commands reg) (r_commandId request) = None \<Longrightarrow>
   \<exists>r. fst (registryExecute reg request s) = Fulfilled r \<and> o_status r = ''error''
      \<and> map_option e_code (o_error r) = Some ''COMMAND_NOT_FOUND''"
  by (simp add: registryExecute_def errorResponse_def Let_def)

text \<open>A failure of the handler's \<open>execute\<close> becomes a response with code \<open>EXECUTION_ERROR\<close>.\<close>

lemma registryExecute_execution_error:
  assumes "map_of (commands reg) (r_commandId request) = Some d"
    and "validate (d_handler d) (JObj (r_payload request)) = Inr v" and "valid v"
    and "fst (execute (d_handler d) request
           (logTo reg LogDebug (''Executing command: '' @ r_commandId request)
             (s\<lparr>calls := calls s @ [(r_commandId request, ''validate'')]\<rparr>)
            \<lparr>calls := calls s @ [(r_commandId request, ''validate''), (r_commandId request, ''execute'')]\<rparr>))
         = Rejected e"
  shows "\<exists>r. fst (registryExecute reg request s) = Fulfilled r \<and> o_status r = ''error''
      \<and> map_option e_code (o_error r) = Some ''EXECUTION_ERROR''
      \<and> map_option e_message (o_error r) = Some (''Command execution failed: '' @ message e)"
  using assms
  by (auto simp: registryExecute_def errorResponse_def logTo_def Let_def split: prod.splits)

section \<open>Properties of \<open>JSON.parse\<close> and \<open>JSON.stringify\<close>\<close>

subsection \<open>The parser consumes input, and its counter never runs out\<close>

lemma length_skip_ws: "length (skip_ws cs) \<le> length cs"
  by (simp add: skip_ws_def length_dropWhile_le)

lemma skip_ws_Cons_length: "skip_ws cs = c # r \<Longrightarrow> length r < length cs"
  using length_skip_ws[of cs] by simp

lemma cons_result_Some: "cons_result c x = Some (s, r) \<longleftrightarrow> (\<exists>s'. x = Some (s', r) \<and> s = c # s')"
  by (auto simp: cons_result_def split: option.splits)

lemma string_body_length: "string_body cs = Some (s, r) \<Longrightarrow> length r < length cs"
proof (induction cs arbitrary: s rule: length_induct)
  case (1 cs)
  then have IH: "\<And>ys s'. length ys < length cs \<Longrightarrow> string_body ys = Some (s', r) \<Longrightarrow> length r < length ys"
    by blast
  show ?case
  proof (cases cs)
    case Nil
    with "1.prems" show ?thesis by simp
  next
    case (Cons c cs')
    have "r = cs' \<or> (\<exists>ys s'. string_body ys = Some (s', r) \<and> length ys < length cs)"
      using "1.prems"
      by (auto simp: Cons cons_result_Some split: if_splits list.splits option.splits)
    then show ?thesis
    proof
      assume "r = cs'" then show ?thesis by (simp add: Cons)
    next
      assume "\<exists>ys s'. string_body ys = Some (s', r) \<and> length ys < length cs"
      then obtain ys s' where "string_body ys = Some (s', r)" "length ys < length cs" by blast
      with IH[of ys s'] show ?thesis by simp
    qed
  qed
qed

lemma dropWhile_digits_le: "length (dropWhile is_digit xs) \<le> length xs"
  by (simp add: length_dropWhile_le)

lemma dropWhile_digits_less: "takeWhile is_digit xs \<noteq> [] \<Longrightarrow> length (dropWhile is_digit xs) < length xs"
  by (cases xs) (auto simp: le_imp_less_Suc length_dropWhile_le split: if_splits)

lemma number_fraction_length: "number_fraction cs = Some (fds, r) \<Longrightarrow> length r \<le> length cs"
  using dropWhile_digits_le[of "tl cs"]
  by (auto simp: number_fraction_def split: list.splits if_splits)

lemma exponent_digits_length: "exponent_digits neg cs = Some (e, r) \<Longrightarrow> length r \<le> length cs"
  using dropWhile_digits_le[of cs]
  by (auto simp: exponent_digits_def split: if_splits)

lemma number_exponent_length: "number_exponent cs = Some (e, r) \<Longrightarrow> length r \<le> length cs"
  by (auto simp: number_exponent_def split: list.splits if_splits dest!: exponent_digits_length)

lemma unsigned_number_length: "unsigned_number neg cs = Some (x, r) \<Longrightarrow> length r < length cs"
proof -
  assume a: "unsigned_number neg cs = Some (x, r)"
  then have ne: "takeWhile is_digit cs \<noteq> []"
    by (auto simp: unsigned_number_def Let_def split: if_splits)
  from a obtain fds cs1 ex where f: "number_fraction (dropWhile is_digit cs) = Some (fds, cs1)"
    and e: "number_exponent cs1 = Some (ex, r)"
    by (auto simp: unsigned_number_def Let_def split: if_splits option.splits)
  from dropWhile_digits_less[OF ne] number_fraction_length[OF f] number_exponent_length[OF e]
  show ?thesis by linarith
qed

lemma parse_number_length: "parse_number cs = Some (x, r) \<Longrightarrow> length r < length cs"
  by (auto simp: parse_number_def split: list.splits if_splits dest!: unsigned_number_length)

lemma starts_with_length: "starts_with cs p \<Longrightarrow> length p \<le> length cs"
  by (induction cs p rule: starts_with.induct) auto

lemma parse_length:
  "parse_value n cs = Parsed v r \<Longrightarrow> length r < length cs"
  "parse_elements n cs acc = Parsed xs r \<Longrightarrow> length r < length cs"
  "parse_members n cs macc = Parsed kvs r \<Longrightarrow> length r < length cs"
proof (induction n cs and n cs acc and n cs macc arbitrary: v r and xs r and kvs r
       rule: parse_value_parse_elements_parse_members.induct)
  case (1 cs)
  then show ?case by simp
next
  case (2 n cs)
  from "2.prems" obtain c r0 where sk: "skip_ws cs = c # r0"
    by (auto split: list.splits)
  note l0 = skip_ws_Cons_length[OF sk]
  show ?case
    using "2.prems" "2.IH"[OF sk] l0
    apply (auto simp: sk split: list.splits if_splits parsed.splits option.splits
          dest!: skip_ws_Cons_length string_body_length parse_number_length)
     apply (meson less_trans)+
    done
next
  case (3 cs acc)
  then show ?case by simp
next
  case (4 n cs acc)
  from "4.prems" obtain v0 r0 where pv: "parse_value n cs = Parsed v0 r0"
    by (auto split: parsed.splits)
  from "4.IH"(1)[OF pv] have l0: "length r0 < length cs" .
  from "4.prems" pv obtain d r1 where sk: "skip_ws r0 = d # r1"
    by (auto split: list.splits)
  note l1 = skip_ws_Cons_length[OF sk]
  show ?case
  proof (cases "d = CHR '',''")
    case True
    with "4.prems" pv sk have "parse_elements n r1 (acc @ [v0]) = Parsed xs r" by simp
    from "4.IH"(2)[OF pv sk True this] l0 l1 show ?thesis by linarith
  next
    case False
    with "4.prems" pv sk have "r = r1" by (auto split: if_splits)
    with l0 l1 show ?thesis by simp
  qed
next
  case (5 cs macc)
  then show ?case by simp
next
  case (6 n cs macc)
  from "6.prems" obtain r0 where sk: "skip_ws cs = CHR 0x22 # r0"
    by (auto split: list.splits if_splits)
  note l0 = skip_ws_Cons_length[OF sk]
  from "6.prems" sk obtain k r1 where sb: "string_body r0 = Some (k, r1)"
    by (auto split: option.splits)
  note l1 = string_body_length[OF sb]
  from "6.prems" sk sb obtain r2 where sk2: "skip_ws r1 = CHR '':'' # r2"
    by (auto split: list.splits if_splits)
  note l2 = skip_ws_Cons_length[OF sk2]
  from "6.prems" sk sb sk2 obtain v0 r3 where pv: "parse_value n r2 = Parsed v0 r3"
    by (auto split: parsed.splits)
  have l3: "length r3 < length r2"
    by (rule "6.IH"(1)[OF sk _ sb refl sk2 _ pv]) simp_all
  from "6.prems" sk sb sk2 pv obtain d r4 where sk4: "skip_ws r3 = d # r4"
    by (auto split: list.splits)
  note l4 = skip_ws_Cons_length[OF sk4]
  show ?case
  proof (cases "d = CHR '',''")
    case True
    with "6.prems" sk sb sk2 pv sk4 have pm: "parse_members n r4 (map_set k v0 macc) = Parsed kvs r" by simp
    have "length r < length r4"
      by (rule "6.IH"(2)[OF sk _ sb refl sk2 _ pv sk4 True pm]) simp_all
    with l0 l1 l2 l3 l4 show ?thesis by linarith
  next
    case False
    with "6.prems" sk sb sk2 pv sk4 have "r = r4" by (auto split: if_splits)
    with l0 l1 l2 l3 l4 show ?thesis by simp
  qed
qed

lemma parse_fuel:
  "2 * length cs < n \<Longrightarrow> parse_value n cs \<noteq> OutOfFuel"
  "2 * length cs + 1 < n \<Longrightarrow> parse_elements n cs acc \<noteq> OutOfFuel"
  "2 * length cs + 1 < n \<Longrightarrow> parse_members n cs macc \<noteq> OutOfFuel"
proof (induction n cs and n cs acc and n cs macc
       rule: parse_value_parse_elements_parse_members.induct)
  case (1 cs)
  then show ?case by simp
next
  case (2 n cs)
  show ?case
  proof (cases "skip_ws cs")
    case Nil
    then show ?thesis by simp
  next
    case (Cons c r0)
    note l0 = skip_ws_Cons_length[OF Cons]
    have f: "2 * length r0 + 1 < n" using l0 "2.prems" by linarith
    show ?thesis
    proof -
      have m: "parse_members n r0 [] \<noteq> OutOfFuel" if "c = CHR ''{''" "skip_ws r0 = d # r'" "d \<noteq> CHR ''}''" for d r'
        using "2.IH"(1)[OF Cons that f] .
      have e: "parse_elements n r0 [] \<noteq> OutOfFuel" if "c \<noteq> CHR ''{''" "c = CHR ''[''" "skip_ws r0 = d # r'" "d \<noteq> CHR '']''" for d r'
        using "2.IH"(2)[OF Cons that f] .
      show ?thesis
      proof (cases "skip_ws r0")
        case Nil
        then show ?thesis by (simp add: Cons split: option.splits)
      next
        case (Cons d r')
        note sk0 = \<open>skip_ws cs = c # r0\<close>
        consider (obj) "c = CHR ''{''" | (arr) "c \<noteq> CHR ''{''" "c = CHR ''[''"
          | (other) "c \<noteq> CHR ''{''" "c \<noteq> CHR ''[''" by blast
        then show ?thesis
        proof cases
          case obj
          then show ?thesis
            using m[OF obj Cons] by (auto simp: sk0 Cons split: parsed.splits)
        next
          case arr
          then show ?thesis
            using e[OF arr Cons] by (auto simp: sk0 Cons split: parsed.splits)
        next
          case other
          then show ?thesis
            by (simp add: sk0 split: option.splits)
        qed
      qed
    qed
  qed
next
  case (3 cs acc)
  then show ?case by simp
next
  case (4 n cs acc)
  have f: "2 * length cs < n" using "4.prems" by linarith
  note nv = "4.IH"(1)[OF f]
  show ?case
  proof (cases "parse_value n cs")
    case (Parsed v0 r0)
    note l0 = parse_length(1)[OF Parsed]
    show ?thesis
    proof (cases "skip_ws r0")
      case Nil
      then show ?thesis by (simp add: Parsed)
    next
      case (Cons d r1)
      note l1 = skip_ws_Cons_length[OF Cons]
      have f1: "2 * length r1 + 1 < n" using f l0 l1 by linarith
      show ?thesis
        using "4.IH"(2)[OF Parsed Cons _ f1]
        by (auto simp: Parsed Cons)
    qed
  next
    case Invalid
    then show ?thesis by simp
  next
    case OutOfFuel
    with nv show ?thesis by simp
  qed
next
  case (5 cs macc)
  then show ?case by simp
next
  case (6 n cs macc)
  show ?case
  proof (cases "skip_ws cs")
    case Nil
    then show ?thesis by simp
  next
    case (Cons q r0)
    note l0 = skip_ws_Cons_length[OF Cons]
    show ?thesis
    proof (cases "q = CHR 0x22")
      case False
      then show ?thesis by (simp add: Cons)
    next
      case True
      show ?thesis
      proof (cases "string_body r0")
        case None
        then show ?thesis by (simp add: Cons True)
      next
        case (Some a)
        obtain k r1 where a: "a = (k, r1)" by (cases a)
        note sb = Some[unfolded a]
        note l1 = string_body_length[OF sb]
        show ?thesis
        proof (cases "skip_ws r1")
          case Nil
          then show ?thesis by (simp add: Cons True sb)
        next
          case (Cons colon r2)
          note sk2 = Cons
          note l2 = skip_ws_Cons_length[OF sk2]
          show ?thesis
          proof (cases "colon = CHR '':''")
            case False
            then show ?thesis by (simp add: \<open>skip_ws cs = q # r0\<close> True sb sk2)
          next
            case colon: True
            have f: "2 * length r2 < n" using "6.prems" l0 l1 l2 by linarith
            have nv: "parse_value n r2 \<noteq> OutOfFuel"
              by (rule "6.IH"(1)[OF \<open>skip_ws cs = q # r0\<close> _ Some a[symmetric] sk2 _ f]) (simp_all add: True colon)
            show ?thesis
            proof (cases "parse_value n r2")
              case (Parsed v0 r3)
              note l3 = parse_length(1)[OF Parsed]
              show ?thesis
              proof (cases "skip_ws r3")
                case Nil
                then show ?thesis by (simp add: \<open>skip_ws cs = q # r0\<close> True sb sk2 colon Parsed)
              next
                case (Cons d r4)
                note l4 = skip_ws_Cons_length[OF Cons]
                have f4: "2 * length r4 + 1 < n" using f l3 l4 by linarith
                have "d = CHR '','' \<Longrightarrow> parse_members n r4 (map_set k v0 macc) \<noteq> OutOfFuel"
                  by (rule "6.IH"(2)[OF \<open>skip_ws cs = q # r0\<close> _ Some a[symmetric] sk2 _ Parsed Cons _ f4])
                     (simp_all add: True colon)
                then show ?thesis
                  by (auto simp: \<open>skip_ws cs = q # r0\<close> True sb sk2 colon Parsed Cons)
              qed
            next
              case Invalid
              then show ?thesis by (simp add: \<open>skip_ws cs = q # r0\<close> True sb sk2 colon)
            next
              case OutOfFuel
              with nv show ?thesis by simp
            qed
          qed
        qed
      qed
    qed
  qed
qed

lemma fuel_for_eq: "fuel_for cs = 2 * length cs + 2"
  by (induction cs) simp_all

lemma JSON_parse_fuel: "parse_value (fuel_for text) text \<noteq> OutOfFuel"
  by (rule parse_fuel(1)) (simp add: fuel_for_eq)

subsection \<open>More fuel does not change a result\<close>

lemma parse_more_fuel:
  "parse_value n cs \<noteq> OutOfFuel \<Longrightarrow> parse_value (Suc n) cs = parse_value n cs"
  "parse_elements n cs acc \<noteq> OutOfFuel \<Longrightarrow> parse_elements (Suc n) cs acc = parse_elements n cs acc"
  "parse_members n cs macc \<noteq> OutOfFuel \<Longrightarrow> parse_members (Suc n) cs macc = parse_members n cs macc"
proof (induction n cs and n cs acc and n cs macc
       rule: parse_value_parse_elements_parse_members.induct)
  case (1 cs)
  then show ?case by simp
next
  case (2 n cs)
  show ?case
  proof (cases "skip_ws cs")
    case Nil
    then show ?thesis by simp
  next
    case (Cons c r0)
    note sk0 = Cons
    show ?thesis
    proof (cases "skip_ws r0")
      case Nil
      then show ?thesis by (simp add: sk0)
    next
      case (Cons d r')
      consider (obj) "c = CHR ''{''" "d = CHR ''}''" | (obj') "c = CHR ''{''" "d \<noteq> CHR ''}''"
        | (arr) "c \<noteq> CHR ''{''" "c = CHR ''[''" "d = CHR '']''"
        | (arr') "c \<noteq> CHR ''{''" "c = CHR ''[''" "d \<noteq> CHR '']''"
        | (other) "c \<noteq> CHR ''{''" "c \<noteq> CHR ''[''" by blast
      then show ?thesis
      proof cases
        case obj
        then show ?thesis by (simp add: sk0 Cons)
      next
        case obj'
        from "2.prems" have "parse_members n r0 [] \<noteq> OutOfFuel"
          by (auto simp: sk0 Cons obj' split: parsed.splits)
        from "2.IH"(1)[OF sk0 obj'(1) Cons obj'(2) this]
        show ?thesis by (simp add: sk0 Cons obj')
      next
        case arr
        then show ?thesis by (simp add: sk0 Cons)
      next
        case arr'
        from "2.prems" have "parse_elements n r0 [] \<noteq> OutOfFuel"
          by (auto simp: sk0 Cons arr' split: parsed.splits)
        from "2.IH"(2)[OF sk0 arr'(1,2) Cons arr'(3) this]
        show ?thesis by (simp add: sk0 Cons arr')
      next
        case other
        then show ?thesis by (simp add: sk0)
      qed
    qed
  qed
next
  case (3 cs acc)
  then show ?case by simp
next
  case (4 n cs acc)
  from "4.prems" have nv: "parse_value n cs \<noteq> OutOfFuel"
    by (auto split: parsed.splits)
  note ev = "4.IH"(1)[OF nv]
  show ?case
  proof (cases "parse_value n cs")
    case (Parsed v0 r0)
    show ?thesis
    proof (cases "skip_ws r0")
      case Nil
      then show ?thesis using ev by (simp add: Parsed)
    next
      case (Cons d r1)
      show ?thesis
      proof (cases "d = CHR '',''")
        case True
        from "4.prems" have "parse_elements n r1 (acc @ [v0]) \<noteq> OutOfFuel"
          by (simp add: Parsed Cons True)
        from "4.IH"(2)[OF Parsed Cons True this]
        show ?thesis using ev by (simp add: Parsed Cons True)
      next
        case False
        then show ?thesis using ev by (simp add: Parsed Cons)
      qed
    qed
  next
    case Invalid
    then show ?thesis using ev by simp
  next
    case OutOfFuel
    with nv show ?thesis by simp
  qed
next
  case (5 cs macc)
  then show ?case by simp
next
  case (6 n cs macc)
  show ?case
  proof (cases "skip_ws cs")
    case Nil
    then show ?thesis by simp
  next
    case (Cons q r0)
    note sk0 = Cons
    show ?thesis
    proof (cases "q = CHR 0x22")
      case False
      then show ?thesis by (simp add: sk0)
    next
      case True
      show ?thesis
      proof (cases "string_body r0")
        case None
        then show ?thesis by (simp add: sk0 True)
      next
        case (Some a)
        obtain k r1 where a: "a = (k, r1)" by (cases a)
        note sb = Some[unfolded a]
        show ?thesis
        proof (cases "skip_ws r1")
          case Nil
          then show ?thesis by (simp add: sk0 True sb)
        next
          case (Cons colon r2)
          note sk2 = Cons
          show ?thesis
          proof (cases "colon = CHR '':''")
            case False
            then show ?thesis by (simp add: sk0 True sb sk2)
          next
            case colon: True
            from "6.prems" have nv: "parse_value n r2 \<noteq> OutOfFuel"
              by (auto simp: sk0 True sb sk2 colon split: parsed.splits)
            have ev: "parse_value (Suc n) r2 = parse_value n r2"
              by (rule "6.IH"(1)[OF sk0 _ Some a[symmetric] sk2 _ nv]) (simp_all add: True colon)
            show ?thesis
            proof (cases "parse_value n r2")
              case (Parsed v0 r3)
              show ?thesis
              proof (cases "skip_ws r3")
                case Nil
                then show ?thesis using ev by (simp add: sk0 True sb sk2 colon Parsed)
              next
                case (Cons d r4)
                show ?thesis
                proof (cases "d = CHR '',''")
                  case comma: True
                  from "6.prems" have nm: "parse_members n r4 (map_set k v0 macc) \<noteq> OutOfFuel"
                    by (simp add: sk0 True sb sk2 colon Parsed Cons comma)
                  have "parse_members (Suc n) r4 (map_set k v0 macc) = parse_members n r4 (map_set k v0 macc)"
                    by (rule "6.IH"(2)[OF sk0 _ Some a[symmetric] sk2 _ Parsed Cons comma nm])
                       (simp_all add: True colon)
                  then show ?thesis using ev by (simp add: sk0 True sb sk2 colon Parsed Cons comma)
                next
                  case False
                  then show ?thesis using ev by (simp add: sk0 True sb sk2 colon Parsed Cons)
                qed
              qed
            next
              case Invalid
              then show ?thesis using ev by (simp add: sk0 True sb sk2 colon)
            next
              case OutOfFuel
              with nv show ?thesis by simp
            qed
          qed
        qed
      qed
    qed
  qed
qed

lemma parse_value_fuel_le:
  "parse_value n cs \<noteq> OutOfFuel \<Longrightarrow> n \<le> m \<Longrightarrow> parse_value m cs = parse_value n cs"
proof (induction m)
  case 0
  then show ?case by simp
next
  case (Suc m)
  show ?case
  proof (cases "n = Suc m")
    case True
    then show ?thesis by simp
  next
    case False
    with Suc.prems have "n \<le> m" by simp
    from Suc.IH[OF Suc.prems(1) this] Suc.prems(1) parse_more_fuel(1)[of m cs]
    show ?thesis by simp
  qed
qed

lemma parse_elements_fuel_le:
  "parse_elements n cs acc \<noteq> OutOfFuel \<Longrightarrow> n \<le> m \<Longrightarrow> parse_elements m cs acc = parse_elements n cs acc"
proof (induction m)
  case 0
  then show ?case by simp
next
  case (Suc m)
  show ?case
  proof (cases "n = Suc m")
    case True
    then show ?thesis by simp
  next
    case False
    with Suc.prems have "n \<le> m" by simp
    from Suc.IH[OF Suc.prems(1) this] Suc.prems(1) parse_more_fuel(2)[of m cs acc]
    show ?thesis by simp
  qed
qed

lemma parse_members_fuel_le:
  "parse_members n cs acc \<noteq> OutOfFuel \<Longrightarrow> n \<le> m \<Longrightarrow> parse_members m cs acc = parse_members n cs acc"
proof (induction m)
  case 0
  then show ?case by simp
next
  case (Suc m)
  show ?case
  proof (cases "n = Suc m")
    case True
    then show ?thesis by simp
  next
    case False
    with Suc.prems have "n \<le> m" by simp
    from Suc.IH[OF Suc.prems(1) this] Suc.prems(1) parse_more_fuel(3)[of m cs acc]
    show ?thesis by simp
  qed
qed

lemma JSON_parse_from_fuel:
  assumes "parse_value n tx = Parsed v rest" "skip_ws rest = []"
  shows "JSON_parse tx = Inr v"
proof -
  let ?f = "fuel_for tx"
  have a: "parse_value (max n ?f) tx = Parsed v rest"
    using parse_value_fuel_le[of n tx "max n ?f"] assms(1) by simp
  have "parse_value (max n ?f) tx = parse_value ?f tx"
    using parse_value_fuel_le[OF JSON_parse_fuel, of tx "max n ?f"] by simp
  with a have "parse_value ?f tx = Parsed v rest" by simp
  then show ?thesis using assms(2) by (simp add: JSON_parse_def)
qed

subsection \<open>Strings are read back as written\<close>

lemma hex_val_hex_digit: "d < 16 \<Longrightarrow> hex_val (hex_digit d) = Some d"
  by (auto simp: hex_val_def hex_digit_def Let_def)

lemma string_body_quote_char:
  "string_body (quote_char c @ cs) = cons_result c (string_body cs)"
proof -
  consider (b) "c = CHR 0x08" | (t) "c = CHR 0x09" | (n) "c = CHR 0x0A" | (f) "c = CHR 0x0C"
    | (r) "c = CHR 0x0D" | (q) "c = CHR 0x22" | (s) "c = bslash"
    | (ctl) "c \<noteq> CHR 0x08" "c \<noteq> CHR 0x09" "c \<noteq> CHR 0x0A" "c \<noteq> CHR 0x0C" "c \<noteq> CHR 0x0D"
        "c \<noteq> CHR 0x22" "c \<noteq> bslash" "(of_char c :: nat) < 32"
    | (plain) "c \<noteq> CHR 0x08" "c \<noteq> CHR 0x09" "c \<noteq> CHR 0x0A" "c \<noteq> CHR 0x0C" "c \<noteq> CHR 0x0D"
        "c \<noteq> CHR 0x22" "c \<noteq> bslash" "\<not> (of_char c :: nat) < 32"
    by blast
  then show ?thesis
  proof cases
    case ctl
    let ?n = "of_char c :: nat"
    have d: "?n div 16 < 16" "?n mod 16 < 16" using ctl(8) by auto
    have h: "hex4 CHR ''0'' CHR ''0'' (hex_digit (?n div 16)) (hex_digit (?n mod 16)) = Some ?n"
      using hex_val_hex_digit[OF d(1)] hex_val_hex_digit[OF d(2)]
      by (simp add: hex4_def hex_val_def)
    have q: "quote_char c = [bslash, CHR ''u'', CHR ''0'', CHR ''0'', hex_digit (?n div 16), hex_digit (?n mod 16)]"
      using ctl by (simp add: quote_char_def)
    have lt: "?n < 256" using ctl(8) by simp
    show ?thesis
      using h lt by (simp add: q bslash_def)
  next
    case plain
    then have "quote_char c = [c]" by (simp add: quote_char_def)
    with plain show ?thesis by simp
  qed (simp_all add: quote_char_def bslash_def escape_char_def)
qed

lemma string_body_quoted:
  "string_body (concat (map quote_char s) @ CHR 0x22 # rest) = Some (s, rest)"
  by (induction s) (simp_all add: string_body_quote_char cons_result_def)

subsection \<open>Digits\<close>

lemma is_digit_digit_char: "d < 10 \<Longrightarrow> is_digit (digit_char d)"
  by (simp add: is_digit_def digit_char_def)

lemma digit_val_digit_char: "d < 10 \<Longrightarrow> digit_val (digit_char d) = d"
  by (simp add: digit_val_def digit_char_def)

lemma show_nat_digits: "\<forall>c \<in> set (show_nat n). is_digit c"
proof (induction n rule: show_nat.induct)
  case (1 n)
  show ?case
  proof (cases "n < 10")
    case True
    then show ?thesis by (subst show_nat.simps) (simp add: is_digit_digit_char)
  next
    case False
    with 1 show ?thesis by (subst show_nat.simps) (simp add: is_digit_digit_char)
  qed
qed

lemma show_nat_not_Nil: "show_nat n \<noteq> []"
  by (subst show_nat.simps) simp

lemma nat_of_digits_snoc: "nat_of_digits (ds @ [c]) = 10 * nat_of_digits ds + digit_val c"
  by (simp add: nat_of_digits_def)

lemma nat_of_digits_show_nat: "nat_of_digits (show_nat n) = n"
proof (induction n rule: show_nat.induct)
  case (1 n)
  show ?case
  proof (cases "n < 10")
    case True
    then show ?thesis
      by (subst show_nat.simps) (simp add: nat_of_digits_def digit_val_digit_char)
  next
    case False
    with 1 have "nat_of_digits (show_nat (n div 10)) = n div 10" by simp
    with False show ?thesis
      by (subst show_nat.simps) (simp add: nat_of_digits_snoc digit_val_digit_char)
  qed
qed

lemma hd_show_nat: "0 < n \<Longrightarrow> hd (show_nat n) \<noteq> CHR ''0''"
proof (induction n rule: show_nat.induct)
  case (1 n)
  show ?case
  proof (cases "n < 10")
    case True
    with "1.prems" show ?thesis
      by (subst show_nat.simps)
         (auto simp: digit_char_def dest!: arg_cong[where f = "of_char :: char \<Rightarrow> nat"])
  next
    case False
    then have "0 < n div 10" by simp
    with 1 False have "hd (show_nat (n div 10)) \<noteq> CHR ''0''" by simp
    with False show ?thesis
      by (subst show_nat.simps) (simp add: show_nat_not_Nil)
  qed
qed

lemma length_show_nat_le: "n < 10 ^ k \<Longrightarrow> 0 < k \<Longrightarrow> length (show_nat n) \<le> k"
proof (induction n arbitrary: k rule: show_nat.induct)
  case (1 n)
  show ?case
  proof (cases "n < 10")
    case True
    with "1.prems" show ?thesis by (subst show_nat.simps) simp
  next
    case False
    obtain j where k: "k = Suc j" using "1.prems"(2) by (cases k) auto
    have "0 < j" using False "1.prems"(1) k by (cases j) auto
    moreover have "n div 10 < 10 ^ j" using "1.prems"(1) k
      by (simp add: less_mult_imp_div_less mult.commute)
    ultimately have "length (show_nat (n div 10)) \<le> j" using 1 False by simp
    with False k show ?thesis by (subst show_nat.simps) simp
  qed
qed

lemma show_nat_single_zero: "length (show_nat n) > 1 \<Longrightarrow> take 1 (show_nat n) \<noteq> ''0''"
proof -
  assume a: "length (show_nat n) > 1"
  have "0 < n"
  proof (rule ccontr)
    assume "\<not> 0 < n"
    then have "n = 0" by simp
    then have "show_nat n = [digit_char 0]" by (subst show_nat.simps) simp
    with a show False by simp
  qed
  from hd_show_nat[OF this] show_nat_not_Nil[of n] show ?thesis
    by (cases "show_nat n") auto
qed

lemma takeWhile_digits: "number_end rest \<Longrightarrow> takeWhile is_digit (show_nat n @ rest) = show_nat n"
  using show_nat_digits[of n]
  by (cases rest) (auto simp: number_end_def takeWhile_append split: list.splits)

lemma dropWhile_digits: "number_end rest \<Longrightarrow> dropWhile is_digit (show_nat n @ rest) = rest"
  using show_nat_digits[of n]
  by (cases rest) (auto simp: number_end_def dropWhile_append split: list.splits)

lemma unsigned_number_show_nat:
  assumes "number_end rest"
  shows "unsigned_number neg (show_nat n @ rest) = Some (Fin (if neg then - int n else int n), rest)"
proof -
  have f: "number_fraction rest = Some ([], rest)"
    using assms by (cases rest) (auto simp: number_fraction_def number_end_def)
  have e: "number_exponent rest = Some (0, rest)"
    using assms by (cases rest) (auto simp: number_exponent_def number_end_def)
  show ?thesis
    using show_nat_single_zero[of n] show_nat_not_Nil[of n]
    by (simp add: unsigned_number_def takeWhile_digits[OF assms] dropWhile_digits[OF assms] f e
          nat_of_digits_show_nat number_value_def Let_def)
qed

lemma all_digits_show_nat: "all_digits (show_nat n)"
  using show_nat_digits by (simp add: all_digits_def)

lemma all_digits_append [simp]: "all_digits (xs @ ys) \<longleftrightarrow> all_digits xs \<and> all_digits ys"
  by (auto simp: all_digits_def)

lemma all_digits_take: "all_digits ds \<Longrightarrow> all_digits (take n ds)"
  by (auto simp: all_digits_def dest: in_set_takeD)

lemma all_digits_drop: "all_digits ds \<Longrightarrow> all_digits (drop n ds)"
  by (auto simp: all_digits_def dest: in_set_dropD)

lemma all_digits_zeros: "all_digits (replicate z CHR ''0'')"
  by (simp add: all_digits_def is_digit_def)

lemma takeWhile_all_digits: "all_digits ds \<Longrightarrow> digit_end rest \<Longrightarrow> takeWhile is_digit (ds @ rest) = ds"
  by (cases rest) (auto simp: all_digits_def digit_end_def takeWhile_append)

lemma dropWhile_all_digits: "all_digits ds \<Longrightarrow> digit_end rest \<Longrightarrow> dropWhile is_digit (ds @ rest) = rest"
  by (cases rest) (auto simp: all_digits_def digit_end_def dropWhile_append)

lemma number_end_digit_end: "number_end rest \<Longrightarrow> digit_end rest"
  by (auto simp: number_end_def digit_end_def split: list.splits)

lemma nat_of_digits_append:
  "nat_of_digits (xs @ ys) = nat_of_digits xs * 10 ^ length ys + nat_of_digits ys"
proof (induction ys rule: rev_induct)
  case Nil
  then show ?case by (simp add: nat_of_digits_def)
next
  case (snoc y ys)
  have "nat_of_digits (xs @ ys @ [y]) = 10 * nat_of_digits (xs @ ys) + digit_val y"
    using nat_of_digits_snoc[of "xs @ ys" y] by simp
  also have "\<dots> = 10 * (nat_of_digits xs * 10 ^ length ys + nat_of_digits ys) + digit_val y"
    by (simp add: snoc)
  also have "\<dots> = nat_of_digits xs * 10 ^ length (ys @ [y]) + nat_of_digits (ys @ [y])"
    by (simp add: nat_of_digits_snoc algebra_simps)
  finally show ?case by simp
qed

lemma nat_of_digits_zeros: "nat_of_digits (replicate z CHR ''0'') = 0"
proof (induction z)
  case 0
  then show ?case by (simp add: nat_of_digits_def)
next
  case (Suc z)
  have "replicate (Suc z) CHR ''0'' = replicate z CHR ''0'' @ [CHR ''0'']"
    by (simp add: replicate_append_same)
  then show ?case using Suc by (simp only: nat_of_digits_snoc) (simp add: digit_val_def)
qed

lemma takeWhile_eq_replicate: "takeWhile (\<lambda>c. c = a) xs = replicate (length (takeWhile (\<lambda>c. c = a) xs)) a"
  by (induction xs) simp_all

lemma strip_zeros_decomp:
  "ds = strip_zeros ds @ replicate (length ds - length (strip_zeros ds)) CHR ''0''"
proof -
  let ?P = "\<lambda>c. c = CHR ''0''"
  let ?t = "takeWhile ?P (rev ds)" and ?d = "dropWhile ?P (rev ds)"
  have "rev (rev ds) = rev (?t @ ?d)" by (simp only: takeWhile_dropWhile_id)
  then have 1: "ds = rev ?d @ rev ?t" by (simp only: rev_append rev_rev_ident)
  have "length (rev ds) = length ?t + length ?d"
    by (simp only: length_append[symmetric] takeWhile_dropWhile_id)
  then have 2: "length ?t = length ds - length (strip_zeros ds)"
    by (simp add: strip_zeros_def)
  have "rev ?t = rev (replicate (length ?t) CHR ''0'')"
    using takeWhile_eq_replicate[of "CHR ''0''" "rev ds"] by simp
  then have 3: "rev ?t = replicate (length ds - length (strip_zeros ds)) CHR ''0''"
    by (simp add: 2)
  show ?thesis using 1 3 by (simp add: strip_zeros_def)
qed

lemma nat_of_digits_strip:
  "nat_of_digits ds = nat_of_digits (strip_zeros ds) * 10 ^ (length ds - length (strip_zeros ds))"
proof -
  let ?z = "length ds - length (strip_zeros ds)"
  have "nat_of_digits ds = nat_of_digits (strip_zeros ds @ replicate ?z CHR ''0'')"
    using strip_zeros_decomp[of ds] by simp
  then show ?thesis by (simp add: nat_of_digits_append nat_of_digits_zeros)
qed

lemma all_digits_strip: "all_digits ds \<Longrightarrow> all_digits (strip_zeros ds)"
  by (auto simp: all_digits_def strip_zeros_def dest: set_dropWhileD)

lemma strip_zeros_not_Nil: "ds \<noteq> [] \<Longrightarrow> hd ds \<noteq> CHR ''0'' \<Longrightarrow> strip_zeros ds \<noteq> []"
proof -
  assume a: "ds \<noteq> []" "hd ds \<noteq> CHR ''0''"
  have "hd ds \<in> set (rev ds)" using a(1) by simp
  with a(2) have "dropWhile (\<lambda>c. c = CHR ''0'') (rev ds) \<noteq> []"
    by (auto simp: dropWhile_eq_Nil_conv)
  then show ?thesis by (simp add: strip_zeros_def)
qed

lemma length_strip_le: "length (strip_zeros ds) \<le> length ds"
  by (simp add: strip_zeros_def length_dropWhile_le[of _ "rev ds", simplified])

subsection \<open>Numbers are read back as written, in each notation\<close>

lemma number_fraction_none:
  "(case rest of [] \<Rightarrow> True | c # _ \<Rightarrow> c \<noteq> CHR ''.'') \<Longrightarrow> number_fraction rest = Some ([], rest)"
  by (cases rest) (auto simp: number_fraction_def)

lemma number_fraction_some:
  "fds \<noteq> [] \<Longrightarrow> all_digits fds \<Longrightarrow> digit_end rest \<Longrightarrow>
     number_fraction (CHR ''.'' # fds @ rest) = Some (fds, rest)"
  by (simp add: number_fraction_def takeWhile_all_digits dropWhile_all_digits)

lemma number_exponent_none:
  "(case rest of [] \<Rightarrow> True | c # _ \<Rightarrow> c \<noteq> CHR ''e'' \<and> c \<noteq> CHR ''E'') \<Longrightarrow>
     number_exponent rest = Some (0, rest)"
  by (cases rest) (auto simp: number_exponent_def)

lemma exponent_digits_show_nat:
  "digit_end rest \<Longrightarrow>
     exponent_digits neg (show_nat x @ rest) = Some (if neg then - int x else int x, rest)"
  using show_nat_not_Nil[of x]
  by (simp add: exponent_digits_def takeWhile_all_digits dropWhile_all_digits all_digits_show_nat
        nat_of_digits_show_nat)

lemma number_exponent_some:
  assumes "digit_end rest"
  shows "number_exponent (CHR ''e'' # (if neg then ''-'' else ''+'') @ show_nat x @ rest)
           = Some (if neg then - int x else int x, rest)"
  using exponent_digits_show_nat[OF assms, of neg x]
  by (cases neg) (simp_all add: number_exponent_def)

lemma unsigned_number_parts:
  assumes "ids \<noteq> []" "all_digits ids" "\<not> (length ids > 1 \<and> take 1 ids = ''0'')"
    and "digit_end r0"
    and "number_fraction r0 = Some (fds, r1)"
    and "number_exponent r1 = Some (ex, r2)"
  shows "unsigned_number neg (ids @ r0)
           = Some (number_value neg (nat_of_digits (ids @ fds)) (ex - int (length fds)), r2)"
  using assms
  by (simp add: unsigned_number_def Let_def takeWhile_all_digits dropWhile_all_digits)

lemma number_end_cases:
  assumes "number_end rest"
  shows "digit_end rest"
    and "(case rest of [] \<Rightarrow> True | c # _ \<Rightarrow> c \<noteq> CHR ''.'')"
    and "(case rest of [] \<Rightarrow> True | c # _ \<Rightarrow> c \<noteq> CHR ''e'' \<and> c \<noteq> CHR ''E'')"
  using assms by (auto simp: number_end_def digit_end_def split: list.splits)

text \<open>Scientific notation.\<close>

lemma unsigned_number_exp_form:
  assumes s: "s \<noteq> []" "all_digits s" and e: "number_end rest"
  shows "unsigned_number neg (exp_form s n @ rest)
           = Some (number_value neg (nat_of_digits s) (n - int (length s)), rest)"
proof -
  obtain d ds where sd: "s = d # ds" using s(1) by (cases s) auto
  let ?sign = "if n - 1 < 0 then ''-'' else ''+''"
  let ?x = "nat \<bar>n - 1\<bar>"
  let ?etext = "CHR ''e'' # ?sign @ show_nat ?x @ rest"
  let ?r0 = "(if ds = [] then [] else CHR ''.'' # ds) @ ?etext"
  have tx: "exp_form s n @ rest = [d] @ ?r0"
    by (simp add: exp_form_def sd)
  have ex: "number_exponent ?etext = Some (n - 1, rest)"
    using number_exponent_some[OF number_end_cases(1)[OF e], of "n - 1 < 0" ?x] by auto
  have fr: "number_fraction ?r0 = Some (ds, ?etext)"
  proof (cases "ds = []")
    case True
    then show ?thesis by (simp add: number_fraction_def)
  next
    case False
    have "all_digits ds" using s(2) sd by (simp add: all_digits_def)
    moreover have "digit_end ?etext" by (simp add: digit_end_def is_digit_def)
    ultimately show ?thesis using False number_fraction_some[of ds ?etext] by simp
  qed
  have de: "digit_end ?r0" by (simp add: digit_end_def is_digit_def)
  have "unsigned_number neg ([d] @ ?r0)
          = Some (number_value neg (nat_of_digits ([d] @ ds)) ((n - 1) - int (length ds)), rest)"
    using s(2) sd by (intro unsigned_number_parts[OF _ _ _ de fr ex]) (simp_all add: all_digits_def)
  moreover have "n - 1 - int (length ds) = n - int (length s)" by (simp add: sd)
  ultimately show ?thesis unfolding tx by (simp add: sd)
qed

text \<open>A decimal point inside the digits.\<close>

lemma unsigned_number_point:
  assumes ds: "all_digits ds" "ds \<noteq> []" "hd ds \<noteq> CHR ''0''" and n: "0 < n" "n < length ds"
    and e: "number_end rest"
  shows "unsigned_number neg (take n ds @ ''.'' @ drop n ds @ rest)
           = Some (number_value neg (nat_of_digits ds) (- int (length ds - n)), rest)"
proof -
  have i1: "take n ds \<noteq> []" using n ds(2) by simp
  have i3: "\<not> (length (take n ds) > 1 \<and> take 1 (take n ds) = ''0'')"
    using ds(2,3) n by (cases ds) auto
  have fr: "number_fraction (CHR ''.'' # drop n ds @ rest) = Some (drop n ds, rest)"
    using n by (intro number_fraction_some all_digits_drop ds number_end_cases(1)[OF e]) simp
  have de: "digit_end (CHR ''.'' # drop n ds @ rest)" by (simp add: digit_end_def is_digit_def)
  from unsigned_number_parts[OF i1 all_digits_take[OF ds(1)] i3 de fr
       number_exponent_none[OF number_end_cases(3)[OF e]], of neg]
  show ?thesis using n by simp
qed

text \<open>Zeros between the decimal point and the digits.\<close>

lemma unsigned_number_zero_point:
  assumes ds: "all_digits ds" "ds \<noteq> []" and e: "number_end rest"
  shows "unsigned_number neg (''0.'' @ replicate z CHR ''0'' @ ds @ rest)
           = Some (number_value neg (nat_of_digits ds) (- int (z + length ds)), rest)"
proof -
  let ?f = "replicate z CHR ''0'' @ ds"
  have fr: "number_fraction (CHR ''.'' # ?f @ rest) = Some (?f, rest)"
    using ds by (intro number_fraction_some number_end_cases(1)[OF e]) (simp_all add: all_digits_zeros)
  have de: "digit_end (CHR ''.'' # ?f @ rest)" by (simp add: digit_end_def is_digit_def)
  have "unsigned_number neg (''0'' @ CHR ''.'' # ?f @ rest)
          = Some (number_value neg (nat_of_digits (''0'' @ ?f)) (0 - int (length ?f)), rest)"
    by (rule unsigned_number_parts[OF _ _ _ de fr number_exponent_none[OF number_end_cases(3)[OF e]]])
       (simp_all add: all_digits_def is_digit_def)
  moreover have "nat_of_digits (''0'' @ ?f) = nat_of_digits ds"
    using nat_of_digits_append[of "''0'' @ replicate z CHR ''0''" ds]
          nat_of_digits_append[of "''0''" "replicate z CHR ''0''"]
    by (simp add: nat_of_digits_zeros) (simp add: nat_of_digits_def digit_val_def)
  ultimately show ?thesis by simp
qed

lemma show_nat_pos:
  assumes "0 < n"
  shows "show_nat n \<noteq> []" "hd (show_nat n) \<noteq> CHR ''0''" "all_digits (show_nat n)"
  using assms show_nat_not_Nil hd_show_nat all_digits_show_nat by auto

lemma number_value_int:
  "number_value neg n 0 = Fin (if neg then - int n else int n)"
  by (simp add: number_value_def)

lemma number_value_dec:
  assumes "0 < k" "m mod 10 \<noteq> 0" "mant = (if neg then - int M else int M)" "mant = m"
  shows "number_value neg M (- int k) = Dec m k"
proof -
  obtain j where k: "k = Suc j" using assms(1) by (cases k) auto
  have 1: "number_value neg M (- int k) = norm_dec mant k"
    using assms(1,3) by (simp add: number_value_def)
  have 2: "norm_dec m k = Dec m k" using assms(2) by (simp add: k)
  show ?thesis using 1 2 assms(4) by simp
qed

lemma number_value_pow:
  "number_value neg M (int e) = Fin ((if neg then - int M else int M) * 10 ^ e)"
  by (simp add: number_value_def)

lemma signed_abs: "(if i < 0 then - int (nat \<bar>i\<bar>) else int (nat \<bar>i\<bar>)) = i"
  by simp

lemma hd_strip_zeros: "strip_zeros ds \<noteq> [] \<Longrightarrow> hd (strip_zeros ds) = hd ds"
  using strip_zeros_decomp[of ds] by (metis hd_append2)

lemma unsigned_number_big:
  assumes big: "\<not> length (show_nat n) \<le> 21" and e: "number_end rest"
  shows "unsigned_number neg (exp_form (strip_zeros (show_nat n)) (int (length (show_nat n))) @ rest)
           = Some (Fin (if neg then - int n else int n), rest)"
proof -
  let ?ds = "show_nat n"
  have pos: "0 < n"
  proof (rule ccontr)
    assume "\<not> 0 < n"
    then have "?ds = [digit_char 0]" by (subst show_nat.simps) simp
    with big show False by simp
  qed
  note p = show_nat_pos[OF pos]
  let ?s = "strip_zeros ?ds"
  have s: "?s \<noteq> []" "all_digits ?s"
    using strip_zeros_not_Nil[OF p(1,2)] all_digits_strip[OF p(3)] by simp_all
  have le: "length ?s \<le> length ?ds" by (rule length_strip_le)
  then have d: "int (length ?ds) - int (length ?s) = int (length ?ds - length ?s)" by simp
  have "nat_of_digits ?s * 10 ^ (length ?ds - length ?s) = n"
    using nat_of_digits_strip[of ?ds] by (simp add: nat_of_digits_show_nat)
  then have "int (nat_of_digits ?s) * 10 ^ (length ?ds - length ?s) = int n"
    by (metis of_nat_mult of_nat_numeral of_nat_power)
  then have "number_value neg (nat_of_digits ?s) (int (length ?ds) - int (length ?s))
               = Fin (if neg then - int n else int n)"
    unfolding d number_value_pow by simp
  with unsigned_number_exp_form[OF s e, of neg "int (length ?ds)"]
  show ?thesis by simp
qed

lemma unsigned_number_dec:
  assumes k: "0 < k" and n: "0 < n" and e: "number_end rest"
  shows "unsigned_number neg
           ((let ds = show_nat n; p = int (length ds) - int k in
             if 0 < p \<and> p \<le> 21 then take (nat p) ds @ ''.'' @ drop (nat p) ds
             else if - 6 < p \<and> p \<le> 0 then ''0.'' @ replicate (nat (- p)) CHR ''0'' @ ds
             else exp_form ds p) @ rest)
           = Some (number_value neg n (- int k), rest)"
proof -
  let ?ds = "show_nat n"
  note p = show_nat_pos[OF n]
  have nd: "nat_of_digits ?ds = n" by (rule nat_of_digits_show_nat)
  let ?e = "int (length ?ds) - int k"
  let ?t = "(let ds = show_nat n; p = int (length ds) - int k in
             if 0 < p \<and> p \<le> 21 then take (nat p) ds @ ''.'' @ drop (nat p) ds
             else if - 6 < p \<and> p \<le> 0 then ''0.'' @ replicate (nat (- p)) CHR ''0'' @ ds
             else exp_form ds p)"
  consider (point) "0 < ?e \<and> ?e \<le> 21" | (zero) "- 6 < ?e \<and> ?e \<le> 0" "\<not> (0 < ?e \<and> ?e \<le> 21)"
    | (sci) "\<not> (0 < ?e \<and> ?e \<le> 21)" "\<not> (- 6 < ?e \<and> ?e \<le> 0)" by blast
  then show ?thesis
  proof cases
    case point
    have tx: "?t = take (nat ?e) ?ds @ ''.'' @ drop (nat ?e) ?ds"
      unfolding Let_def using point by (rule if_P)
    have b: "0 < nat ?e" "nat ?e < length ?ds" using point k by linarith+
    have "length ?ds - nat ?e = k" using point k by linarith
    with unsigned_number_point[OF p(3,1,2) b e, of neg]
    show ?thesis unfolding tx by (simp add: nd)
  next
    case zero
    have tx: "?t = ''0.'' @ replicate (nat (- ?e)) CHR ''0'' @ ?ds"
      unfolding Let_def using zero by (simp only: if_P if_not_P if_False)
    have "nat (- ?e) + length ?ds = k" using zero by linarith
    with unsigned_number_zero_point[OF p(3,1) e, of neg "nat (- ?e)"]
    show ?thesis unfolding tx by (simp add: nd)
  next
    case sci
    have tx: "?t = exp_form ?ds ?e"
      unfolding Let_def using sci by (simp only: if_not_P if_False)
    have "?e - int (length ?ds) = - int k" by simp
    with unsigned_number_exp_form[OF p(1,3) e, of neg ?e]
    show ?thesis unfolding tx by (simp add: nd)
  qed
qed

lemma unsigned_number_show_unsigned:
  assumes ok: "num_ok x" and e: "number_end rest"
  shows "unsigned_number (negative x) (show_unsigned x @ rest) = Some (x, rest)"
proof (cases x)
  case (Fin i)
  define n where "n = nat \<bar>i\<bar>"
  have val: "(if i < 0 then - int n else int n) = i" by (simp add: n_def)
  have su: "show_unsigned x = (let ds = show_nat n in
           if length ds \<le> 21 then ds else exp_form (strip_zeros ds) (int (length ds)))"
    by (simp add: Fin show_unsigned_def n_def)
  have ng: "negative x = (i < 0)" by (simp add: Fin negative_def)
  show ?thesis
  proof (cases "length (show_nat n) \<le> 21")
    case True
    with unsigned_number_show_nat[OF e, of "i < 0" n] show ?thesis
      unfolding su ng val by (simp add: Fin Let_def)
  next
    case False
    with unsigned_number_big[OF False e, of "i < 0"] show ?thesis
      unfolding su ng val by (simp add: Fin Let_def)
  qed
next
  case (Dec m k)
  from ok Dec have k: "0 < k" and m: "m mod 10 \<noteq> 0" by (simp_all add: num_ok_def)
  define n where "n = nat \<bar>m\<bar>"
  have pos: "0 < n" using m by (cases "m = 0") (auto simp: n_def)
  have val: "(if m < 0 then - int n else int n) = m" by (simp add: n_def)
  have su: "show_unsigned x = (let ds = show_nat n; p = int (length ds) - int k in
             if 0 < p \<and> p \<le> 21 then take (nat p) ds @ ''.'' @ drop (nat p) ds
             else if - 6 < p \<and> p \<le> 0 then ''0.'' @ replicate (nat (- p)) CHR ''0'' @ ds
             else exp_form ds p)"
    by (simp add: Dec show_unsigned_def n_def)
  have ng: "negative x = (m < 0)" by (simp add: Dec negative_def)
  from number_value_dec[OF k m refl val] unsigned_number_dec[OF k pos e, of "m < 0"]
  show ?thesis unfolding su ng by (simp add: Dec)
qed (use ok in \<open>simp_all add: num_ok_def\<close>)

lemma show_unsigned_head:
  assumes ok: "num_ok x"
  shows "\<exists>d t. show_unsigned x = d # t \<and> is_digit d"
proof -
  have ne: "number_end []" by (simp add: number_end_def)
  from unsigned_number_show_unsigned[OF ok ne]
  have u: "unsigned_number (negative x) (show_unsigned x) = Some (x, [])" by simp
  then have "takeWhile is_digit (show_unsigned x) \<noteq> []"
    by (auto simp: unsigned_number_def Let_def split: if_splits)
  then show ?thesis by (cases "show_unsigned x") (auto split: if_splits)
qed

lemma number_to_string_sign:
  "num_ok x \<Longrightarrow> number_to_string x = (if negative x then ''-'' else []) @ show_unsigned x"
  by (cases x) (auto simp: number_to_string_def negative_def num_ok_def)

lemma parse_number_to_string:
  assumes ok: "num_ok x" and e: "number_end rest"
  shows "parse_number (number_to_string x @ rest) = Some (x, rest)"
proof -
  from show_unsigned_head[OF ok] obtain d t where h: "show_unsigned x = d # t" "is_digit d" by blast
  then have nm: "d \<noteq> CHR ''-''" by (auto simp: is_digit_def)
  note u = unsigned_number_show_unsigned[OF ok e]
  show ?thesis
  proof (cases "negative x")
    case True
    with u show ?thesis by (simp add: number_to_string_sign[OF ok] parse_number_def)
  next
    case False
    with u nm show ?thesis by (simp add: number_to_string_sign[OF ok] parse_number_def h)
  qed
qed

lemma number_to_string_head:
  assumes ok: "num_ok x"
  shows "\<exists>c t. number_to_string x = c # t \<and> (c = CHR ''-'' \<or> is_digit c)"
  using show_unsigned_head[OF ok] by (auto simp: number_to_string_sign[OF ok])

subsection \<open>Every written value is read back\<close>

lemma skip_ws_nonws: "\<not> is_ws c \<Longrightarrow> skip_ws (c # cs) = c # cs"
  by (simp add: skip_ws_def)

lemma parses_null: "parses (''null'' @ rest) JNull rest"
  unfolding parses_def
  by (rule exI[of _ "Suc 0"]) (simp add: skip_ws_def is_ws_def is_digit_def)

lemma parses_true: "parses (''true'' @ rest) (JBool True) rest"
  unfolding parses_def
  by (rule exI[of _ "Suc 0"]) (simp add: skip_ws_def is_ws_def is_digit_def)

lemma parses_false: "parses (''false'' @ rest) (JBool False) rest"
  unfolding parses_def
  by (rule exI[of _ "Suc 0"]) (simp add: skip_ws_def is_ws_def is_digit_def)

lemma parses_string: "parses (quote s @ rest) (JStr s) rest"
  unfolding parses_def
  by (rule exI[of _ "Suc 0"])
     (simp add: quote_def skip_ws_def is_ws_def string_body_quoted)

lemma parses_number:
  assumes "number_end rest" "num_ok x"
  shows "parses (number_to_string x @ rest) (JNum x) rest"
proof -
  from number_to_string_head[OF assms(2)] obtain c cs
    where t: "number_to_string x = c # cs" and c: "c = CHR ''-'' \<or> is_digit c" by blast
  have nw: "\<not> is_ws c" "c \<noteq> CHR ''{''" "c \<noteq> CHR ''[''" "c \<noteq> CHR 0x22"
    using c by (auto simp: is_ws_def is_digit_def)
  have "parse_value (Suc 0) (number_to_string x @ rest) = Parsed (JNum x) rest"
    using parse_number_to_string[OF assms(2,1)] nw c by (simp add: t skip_ws_nonws)
  then show ?thesis unfolding parses_def by blast
qed

lemma parses_empty_array: "parses (''[]'' @ rest) (JArr []) rest"
  unfolding parses_def
  by (rule exI[of _ "Suc 0"]) (simp add: skip_ws_def is_ws_def)

lemma parses_empty_object: "parses (''{}'' @ rest) (JObj []) rest"
  unfolding parses_def
  by (rule exI[of _ "Suc 0"]) (simp add: skip_ws_def is_ws_def)

lemma parses_array:
  assumes "parses_elements (c # cs) [] xs rest" "\<not> is_ws c" "c \<noteq> CHR '']''"
  shows "parses (CHR ''['' # c # cs) (JArr xs) rest"
proof -
  from assms(1) obtain n where "parse_elements n (c # cs) [] = Parsed xs rest"
    unfolding parses_elements_def by blast
  then have "parse_value (Suc n) (CHR ''['' # c # cs) = Parsed (JArr xs) rest"
    using assms(2,3) by (simp add: skip_ws_def is_ws_def)
  then show ?thesis unfolding parses_def by blast
qed

lemma parses_object:
  assumes "parses_members (c # cs) [] kvs rest" "\<not> is_ws c" "c \<noteq> CHR ''}''"
  shows "parses (CHR ''{'' # c # cs) (JObj kvs) rest"
proof -
  from assms(1) obtain n where "parse_members n (c # cs) [] = Parsed kvs rest"
    unfolding parses_members_def by blast
  then have "parse_value (Suc n) (CHR ''{'' # c # cs) = Parsed (JObj kvs) rest"
    using assms(2,3) by (simp add: skip_ws_def is_ws_def)
  then show ?thesis unfolding parses_def by blast
qed

lemma parses_elements_last:
  assumes "parses cs v (CHR '']'' # rest)"
  shows "parses_elements cs acc (acc @ [v]) rest"
proof -
  from assms obtain n where "parse_value n cs = Parsed v (CHR '']'' # rest)"
    unfolding parses_def by blast
  then have "parse_elements (Suc n) cs acc = Parsed (acc @ [v]) rest"
    by (simp add: skip_ws_def is_ws_def)
  then show ?thesis unfolding parses_elements_def by blast
qed

lemma parses_elements_more:
  assumes "parses cs v (CHR '','' # r)" "parses_elements r (acc @ [v]) xs rest"
  shows "parses_elements cs acc xs rest"
proof -
  from assms(1) obtain n where n: "parse_value n cs = Parsed v (CHR '','' # r)"
    unfolding parses_def by blast
  from assms(2) obtain m where m: "parse_elements m r (acc @ [v]) = Parsed xs rest"
    unfolding parses_elements_def by blast
  have a: "parse_value (max n m) cs = Parsed v (CHR '','' # r)"
    using parse_value_fuel_le[of n cs "max n m"] n by simp
  have b: "parse_elements (max n m) r (acc @ [v]) = Parsed xs rest"
    using parse_elements_fuel_le[of m r "acc @ [v]" "max n m"] m by simp
  have "parse_elements (Suc (max n m)) cs acc = Parsed xs rest"
    using a b by (simp add: skip_ws_def is_ws_def)
  then show ?thesis unfolding parses_elements_def by blast
qed

lemma member_prefix:
  "skip_ws (quote k @ CHR '':'' # cs) = CHR 0x22 # concat (map quote_char k) @ CHR 0x22 # CHR '':'' # cs"
  by (simp add: quote_def skip_ws_def is_ws_def)

lemma parses_members_last:
  assumes "parses cs v (CHR ''}'' # rest)"
  shows "parses_members (quote k @ '':'' @ cs) acc (map_set k v acc) rest"
proof -
  from assms obtain n where "parse_value n cs = Parsed v (CHR ''}'' # rest)"
    unfolding parses_def by blast
  then have "parse_members (Suc n) (quote k @ '':'' @ cs) acc = Parsed (map_set k v acc) rest"
    by (simp add: member_prefix string_body_quoted skip_ws_nonws is_ws_def)
  then show ?thesis unfolding parses_members_def by blast
qed

lemma parses_members_more:
  assumes "parses cs v (CHR '','' # r)" "parses_members r (map_set k v acc) kvs rest"
  shows "parses_members (quote k @ '':'' @ cs) acc kvs rest"
proof -
  from assms(1) obtain n where n: "parse_value n cs = Parsed v (CHR '','' # r)"
    unfolding parses_def by blast
  from assms(2) obtain m where m: "parse_members m r (map_set k v acc) = Parsed kvs rest"
    unfolding parses_members_def by blast
  have a: "parse_value (max n m) cs = Parsed v (CHR '','' # r)"
    using parse_value_fuel_le[of n cs "max n m"] n by simp
  have b: "parse_members (max n m) r (map_set k v acc) = Parsed kvs rest"
    using parse_members_fuel_le[of m r "map_set k v acc" "max n m"] m by simp
  have "parse_members (Suc (max n m)) (quote k @ '':'' @ cs) acc = Parsed kvs rest"
    using a b by (simp add: member_prefix string_body_quoted skip_ws_nonws is_ws_def)
  then show ?thesis unfolding parses_members_def by blast
qed

lemma map_set_fresh: "k \<notin> fst ` set acc \<Longrightarrow> map_set k v acc = acc @ [(k, v)]"
  by (induction acc) auto

lemma json_value_text: "json_value v \<Longrightarrow> \<exists>c t. stringify_value v = Some (c # t) \<and> \<not> is_ws c \<and> c \<noteq> CHR '']'' \<and> c \<noteq> CHR ''}''"
proof (cases v)
  case (JNum x)
  assume "json_value v"
  with JNum have ok: "num_ok x" by simp
  from number_to_string_head[OF ok] obtain c cs
    where t: "number_to_string x = c # cs" and c: "c = CHR ''-'' \<or> is_digit c" by blast
  have "\<not> is_ws c \<and> c \<noteq> CHR '']'' \<and> c \<noteq> CHR ''}''"
    using c by (auto simp: is_digit_def is_ws_def)
  moreover have "finite_num x" using ok by (cases x) (simp_all add: num_ok_def finite_num_def)
  ultimately show ?thesis using t by (simp add: JNum)
qed (auto simp: is_ws_def quote_def)

lemma number_end_delim [simp]:
  "number_end (CHR '','' # r)" "number_end (CHR '']'' # r)" "number_end (CHR ''}'' # r)" "number_end []"
  by (simp_all add: number_end_def is_digit_def)

lemma stringify_elements_not_Nil: "xs \<noteq> [] \<Longrightarrow> stringify_elements xs \<noteq> []"
  by (cases xs) auto

lemma roundtrip:
  "json_value v \<Longrightarrow> number_end rest \<Longrightarrow> stringify_value v = Some t \<Longrightarrow> parses (t @ rest) v rest"
  "json_values xs \<Longrightarrow> xs \<noteq> [] \<Longrightarrow>
     parses_elements (join '','' (stringify_elements xs) @ CHR '']'' # rest) acc (acc @ xs) rest"
  "json_members kvs \<Longrightarrow> kvs \<noteq> [] \<Longrightarrow> distinct (map fst kvs) \<Longrightarrow> fst ` set kvs \<inter> fst ` set macc = {} \<Longrightarrow>
     parses_members (join '','' (stringify_members kvs) @ CHR ''}'' # rest) macc (macc @ kvs) rest"
proof (induction v and xs and kvs arbitrary: rest t and rest acc and rest macc
       rule: json_value_json_values_json_members.induct)
  case 1
  then show ?case by simp
next
  case 2
  then show ?case using parses_null[of rest] by auto
next
  case (3 b)
  then show ?case using parses_true[of rest] parses_false[of rest] by (cases b) auto
next
  case (4 x)
  then have ok: "num_ok x" by simp
  then have "finite_num x" by (cases x) (simp_all add: num_ok_def finite_num_def)
  with parses_number[OF "4.prems"(2) ok] "4.prems"(3) show ?case by auto
next
  case (5 s)
  then show ?case using parses_string[of s rest] by auto
next
  case (6 xs)
  show ?case
  proof (cases xs)
    case Nil
    with "6.prems" show ?thesis using parses_empty_array[of rest] by simp
  next
    case (Cons y ys)
    from "6.prems"(1) have jv: "json_values xs" by simp
    have ne: "xs \<noteq> []" using Cons by simp
    note pe = "6.IH"[OF jv ne, of rest "[]"]
    from "6.prems"(1) Cons have "json_value y" by simp
    from json_value_text[OF this] obtain c ty where ty: "stringify_value y = Some (c # ty)"
      and c: "\<not> is_ws c" "c \<noteq> CHR '']''" by blast
    have "\<exists>cs. join '','' (stringify_elements xs) @ CHR '']'' # rest = c # cs"
      using ty Cons by (cases ys) auto
    then obtain cs where cs: "join '','' (stringify_elements xs) @ CHR '']'' # rest = c # cs" by blast
    from parses_array[OF pe[unfolded cs] c] cs "6.prems"(3)
    show ?thesis by auto
  qed
next
  case (7 kvs)
  show ?case
  proof (cases kvs)
    case Nil
    with "7.prems" show ?thesis using parses_empty_object[of rest] by simp
  next
    case (Cons kv kvs')
    from "7.prems"(1) have d: "distinct (map fst kvs)" and jm: "json_members kvs" by simp_all
    have ne: "kvs \<noteq> []" using Cons by simp
    have pm: "parses_members (join '','' (stringify_members kvs) @ CHR ''}'' # rest) [] ([] @ kvs) rest"
      by (rule "7.IH"[OF jm ne d]) simp
    obtain k v0 where kv: "kv = (k, v0)" by (cases kv)
    from jm Cons kv have "json_value v0" by simp
    from json_value_text[OF this] obtain c0 t0 where "stringify_value v0 = Some (c0 # t0)" by blast
    then have "\<exists>cs. join '','' (stringify_members kvs) @ CHR ''}'' # rest = CHR 0x22 # cs"
      using Cons kv by (cases "stringify_members kvs'") (auto simp: quote_def)
    then obtain cs where cs: "join '','' (stringify_members kvs) @ CHR ''}'' # rest = CHR 0x22 # cs" by blast
    have "parses (CHR ''{'' # CHR 0x22 # cs) (JObj kvs) rest"
      using pm[unfolded cs] by (intro parses_object) (simp_all add: is_ws_def)
    with cs "7.prems"(3) show ?thesis by auto
  qed
next
  case 8
  then show ?case by simp
next
  case (9 x xs)
  from "9.prems"(1) have jx: "json_value x" and jxs: "json_values xs" by simp_all
  from json_value_text[OF jx] obtain c tx where tx: "stringify_value x = Some (c # tx)" by blast
  show ?case
  proof (cases xs)
    case Nil
    have "parses ((c # tx) @ CHR '']'' # rest) x (CHR '']'' # rest)"
      by (rule "9.IH"(1)[OF jx _ tx]) simp
    from parses_elements_last[OF this, of acc] show ?thesis
      by (simp add: Nil tx)
  next
    case (Cons y ys)
    let ?r = "join '','' (stringify_elements xs) @ CHR '']'' # rest"
    have p1: "parses ((c # tx) @ CHR '','' # ?r) x (CHR '','' # ?r)"
      by (rule "9.IH"(1)[OF jx _ tx]) simp
    have p2: "parses_elements ?r (acc @ [x]) ((acc @ [x]) @ xs) rest"
      by (rule "9.IH"(2)[OF jxs]) (simp add: Cons)
    from parses_elements_more[OF p1 p2] show ?thesis
      by (simp add: Cons tx)
  qed
next
  case 10
  then show ?case by simp
next
  case (11 k v kvs)
  from "11.prems"(1) have jv: "json_value v" and jm: "json_members kvs" by simp_all
  from json_value_text[OF jv] obtain c tv where tv: "stringify_value v = Some (c # tv)" by blast
  from "11.prems"(4) have fresh: "k \<notin> fst ` set macc" by auto
  note ms = map_set_fresh[OF fresh, of v]
  show ?case
  proof (cases kvs)
    case Nil
    have "parses ((c # tv) @ CHR ''}'' # rest) v (CHR ''}'' # rest)"
      by (rule "11.IH"(1)[OF _ _ tv]) (simp_all add: jv)
    from parses_members_last[OF this, of k macc] show ?thesis
      by (simp add: Nil tv ms)
  next
    case (Cons kv' kvs')
    let ?r = "join '','' (stringify_members kvs) @ CHR ''}'' # rest"
    have sm: "stringify_members kvs \<noteq> []"
    proof -
      obtain k' v' where kv': "kv' = (k', v')" by (cases kv')
      from jm Cons kv' have "json_value v'" by simp
      from json_value_text[OF this] kv' Cons show ?thesis by auto
    qed
    have p1: "parses ((c # tv) @ CHR '','' # ?r) v (CHR '','' # ?r)"
      by (rule "11.IH"(1)[OF _ _ tv]) (simp_all add: jv)
    have d': "distinct (map fst kvs)" using "11.prems"(3) by simp
    have disj: "fst ` set kvs \<inter> fst ` set (macc @ [(k, v)]) = {}"
      using "11.prems"(3,4) by auto
    have p2: "parses_members ?r (macc @ [(k, v)]) ((macc @ [(k, v)]) @ kvs) rest"
      by (rule "11.IH"(2)[OF jm _ d' disj]) (simp add: Cons)
    from parses_members_more[OF p1 p2[folded ms]] sm show ?thesis
      by (cases "stringify_members kvs") (simp_all add: tv ms)
  qed
qed

section \<open>Properties of the protocol handler\<close>

text \<open>
  A value without \<open>undefined\<close>, with finite numbers only and without repeated key in an object
  is read back by \<open>JSON.parse\<close> from the text that \<open>JSON.stringify\<close> writes for it.
\<close>

lemma JSON_roundtrip:
  assumes "json_value v" "stringify_value v = Some t"
  shows "JSON_parse t = Inr v"
proof -
  have "parses (t @ []) v []" by (rule roundtrip(1)[OF assms(1) _ assms(2)]) simp
  then obtain n where "parse_value n t = Parsed v []" by (auto simp: parses_def)
  then show ?thesis by (rule JSON_parse_from_fuel) (simp add: skip_ws_def)
qed

subsection \<open>Validation\<close>

lemma isValidMessage_iff:
  "truthy (isValidMessage msg) \<longleftrightarrow>
     typeof msg = ''object'' \<and> msg \<noteq> JNull
     \<and> get_prop msg ''version'' = JStr ''1.0''
     \<and> truthy (get_prop msg ''type'')
     \<and> truthy (get_prop msg ''id'')
     \<and> typeof (get_prop msg ''timestamp'') = ''number''
     \<and> truthy (get_prop msg ''channel'')"
  by (cases msg) (auto simp: isValidMessage_def)

lemma truthy_not_absent: "absent_or_empty v \<Longrightarrow> \<not> truthy v"
  by (auto simp: absent_or_empty_def)

lemma violates_not_valid: "violatesInvariants msg \<Longrightarrow> \<not> truthy (isValidMessage msg)"
  unfolding isValidMessage_iff violatesInvariants_def
  by (auto dest: truthy_not_absent)

text \<open>Facts for running the parser on a given text.\<close>

lemmas parse_eval = JSON_parse_def skip_ws_def is_ws_def is_digit_def parse_number_def
  unsigned_number_def number_fraction_def number_exponent_def exponent_digits_def number_value_def
  string_body.simps cons_result_def escape_char_def
  hex4_def hex_val_def bslash_def dquote_def nat_of_digits_def digit_val_def Let_def

lemma JSON_parse_unknownTypeText: "JSON_parse unknownTypeText = Inr unknownTypeMessage"
  by (simp add: parse_eval unknownTypeText_def unknownTypeMessage_def
      cong: list.case_cong_weak option.case_cong_weak parsed.case_cong_weak prod.case_cong_weak)

text \<open>
  Claim C10. \<open>parseMessage\<close> accepts the text
  \<open>{"version":"1.0","type":"bogus","id":"42","timestamp":1700000000000,"channel":"command"}\<close>,
  whose \<open>type\<close> is none of the seven message kinds. What validation checks is that the value
  is an object, that its version is \<open>1.0\<close>, that \<open>type\<close>, \<open>id\<close> and \<open>channel\<close> are truthy and
  that the timestamp is a number.
\<close>

theorem parseMessage_accepts_unknown_type:
  "parseMessage unknownTypeText = Inr unknownTypeMessage
   \<and> get_prop unknownTypeMessage ''type'' = JStr ''bogus''
   \<and> ''bogus'' \<notin> set messageTypes
   \<and> (\<forall>msg. truthy (isValidMessage msg) =
         (typeof msg = ''object'' \<and> msg \<noteq> JNull
          \<and> get_prop msg ''version'' = JStr ''1.0''
          \<and> truthy (get_prop msg ''type'')
          \<and> truthy (get_prop msg ''id'')
          \<and> typeof (get_prop msg ''timestamp'') = ''number''
          \<and> truthy (get_prop msg ''channel'')))"
proof -
  have v: "truthy (isValidMessage unknownTypeMessage)"
    by (simp add: isValidMessage_iff unknownTypeMessage_def)
  have "parseMessage unknownTypeText = Inr unknownTypeMessage"
    using v by (simp add: parseMessage_def JSON_parse_unknownTypeText bindE_def validateAndNormalize_def)
  moreover have "get_prop unknownTypeMessage ''type'' = JStr ''bogus''"
    by (simp add: unknownTypeMessage_def)
  moreover have "''bogus'' \<notin> set messageTypes" by (simp add: messageTypes_def)
  ultimately show ?thesis using isValidMessage_iff by blast
qed

subsection \<open>Failures of \<open>parseMessage\<close>\<close>

lemma lacking_field_violates:
  "k \<in> {''version'', ''type'', ''id'', ''timestamp'', ''channel''} \<Longrightarrow> get_prop msg k = JUndefined
     \<Longrightarrow> violatesInvariants msg"
  by (auto simp: violatesInvariants_def absent_or_empty_def)

lemma JSON_parse_open_brace: "JSON_parse ''{'' = Inl (SyntaxError ''Unexpected token in JSON'')"
  by (simp add: parse_eval
      cong: list.case_cong_weak option.case_cong_weak parsed.case_cong_weak prod.case_cong_weak)

lemma JSON_parse_empty_object: "JSON_parse ''{}'' = Inr (JObj [])"
  by (simp add: parse_eval
      cong: list.case_cong_weak option.case_cong_weak parsed.case_cong_weak prod.case_cong_weak)

text \<open>
  Claim C6, as amended. \<open>parseMessage\<close> fails for a text that \<open>JSON.parse\<close> rejects and for a
  text whose value violates the invariants of the envelope (in particular when \<open>version\<close>,
  \<open>type\<close>, \<open>id\<close>, \<open>channel\<close> or a numeric \<open>timestamp\<close> is lacking, or the version is not
  \<open>1.0\<close>). In both cases it throws an \<open>Error\<close> whose message starts with
  \<open>Failed to parse message:\<close>, followed by the message of the syntax error in the first case
  and by \<open>Invalid message format: missing required fields or invalid version\<close> in the second.
\<close>

theorem parseMessage_failures:
  "(JSON_parse data = Inl err \<longrightarrow>
      parseMessage data = Inl (Error (''Failed to parse message: '' @ message err)))
   \<and> (JSON_parse data = Inr msg \<and> violatesInvariants msg \<longrightarrow>
      parseMessage data = Inl (Error
        ''Failed to parse message: Invalid message format: missing required fields or invalid version''))"
  using violates_not_valid[of msg]
  by (auto simp: parseMessage_def bindE_def validateAndNormalize_def)

text \<open>
  Claim C6 as stated (a \<open>ParseError\<close> for invalid text, a distinct \<open>ValidationError\<close> for a
  violated invariant) fails on the code: the text \<open>{\<close>, which is no JSON, and the text \<open>{}\<close>,
  which is JSON and lacks every field, both make \<open>parseMessage\<close> throw a plain \<open>Error\<close>
  reporting a failure to parse the message.
\<close>

theorem parseMessage_same_error_class:
  "parseMessage ''{'' = Inl (Error ''Failed to parse message: Unexpected token in JSON'')
   \<and> parseMessage ''{}'' = Inl (Error
        ''Failed to parse message: Invalid message format: missing required fields or invalid version'')"
  by (simp add: parseMessage_def bindE_def validateAndNormalize_def isValidMessage_def
      JSON_parse_open_brace JSON_parse_empty_object)

theorem parseMessage_failures_witness:
  "JSON_parse ''{'' = Inl (SyntaxError ''Unexpected token in JSON'')
   \<and> parseMessage ''{'' = Inl (Error (''Failed to parse message: '' @ message (SyntaxError ''Unexpected token in JSON'')))
   \<and> JSON_parse ''{}'' = Inr (JObj []) \<and> violatesInvariants (JObj [])
   \<and> parseMessage ''{}'' = Inl (Error
        ''Failed to parse message: Invalid message format: missing required fields or invalid version'')"
proof -
  have v: "violatesInvariants (JObj [])" by (simp add: violatesInvariants_def)
  from parseMessage_failures[of "''{''" "SyntaxError ''Unexpected token in JSON''" "JObj []"]
    parseMessage_failures[of "''{}''" "SyntaxError ''Unexpected token in JSON''" "JObj []"]
    JSON_parse_open_brace JSON_parse_empty_object v
  show ?thesis by simp
qed

subsection \<open>Serialising and parsing an envelope\<close>

text \<open>The envelopes that \<open>isValidMessage\<close> accepts are the well-formed ones.\<close>

lemma wellFormed_valid:
  "truthy (isValidMessage (envelope_js e)) \<longleftrightarrow> wellFormed e"
  by (auto simp: isValidMessage_iff envelope_js_def wellFormed_def)

lemma serializeMessage_Some: "JSON_stringify (envelope_js e) = Some (serializeMessage e)"
  by (simp add: serializeMessage_def JSON_stringify_def envelope_js_def)

text \<open>
  Claim C2, as amended. For a well-formed envelope whose timestamp is finite and whose payload
  holds no \<open>undefined\<close> and no number that is not finite, \<open>parseMessage (serializeMessage e)\<close>
  succeeds and yields the object of the envelope, so every field is as in \<open>e\<close>.
\<close>

theorem envelope_roundtrip:
  assumes "wellFormed e"
    and "num_ok (m_timestamp e)"
    and "json_value (m_payload e)"
  shows "parseMessage (serializeMessage e) = Inr (envelope_js e)"
proof -
  have jv: "json_value (envelope_js e)"
    using assms(2,3) by (cases "m_requiresACK e") (simp_all add: envelope_js_def)
  from serializeMessage_Some[of e] have "stringify_value (envelope_js e) = Some (serializeMessage e)"
    by (simp add: JSON_stringify_def)
  from JSON_roundtrip[OF jv this] have "JSON_parse (serializeMessage e) = Inr (envelope_js e)" .
  then show ?thesis
    using assms(1) wellFormed_valid[of e]
    by (simp add: parseMessage_def bindE_def validateAndNormalize_def)
qed

theorem envelope_roundtrip_witness:
  "wellFormed requestEnvelope
   \<and> num_ok (m_timestamp requestEnvelope)
   \<and> json_value (m_payload requestEnvelope)
   \<and> parseMessage (serializeMessage requestEnvelope) = Inr (envelope_js requestEnvelope)"
proof -
  have a: "wellFormed requestEnvelope" by (simp add: wellFormed_def requestEnvelope_def)
  have b: "num_ok (m_timestamp requestEnvelope)" by (simp add: requestEnvelope_def num_ok_def)
  have d: "json_value (m_payload requestEnvelope)" by (simp add: requestEnvelope_def num_ok_def)
  from envelope_roundtrip[OF a b d] a b d show ?thesis by blast
qed

text \<open>\<open>JSON.stringify\<close> writes \<open>null\<close> for \<open>NaN\<close> and for an array element \<open>undefined\<close>.\<close>

lemma stringify_NaN_timestamp:
  "stringify_value (envelope_js (pingEnvelope NaN JNull))
     = stringify_value (JObj [(''version'', JStr ''1.0''), (''type'', JStr ''ping''), (''id'', JStr ''42''),
          (''timestamp'', JNull), (''channel'', JStr ''heartbeat''), (''payload'', JNull)])"
  by (simp add: envelope_js_def pingEnvelope_def finite_num_def)

lemma stringify_undefined_element:
  "stringify_value (envelope_js (pingEnvelope (Fin 5) (JArr [JUndefined])))
     = stringify_value (envelope_js (pingEnvelope (Fin 5) (JArr [JNull])))"
  by (simp add: envelope_js_def pingEnvelope_def)

text \<open>
  Claim C2 as stated (every well-formed envelope) fails on the code. The ping envelope with
  timestamp \<open>NaN\<close>, a number, is well-formed, and its serialisation is rejected by
  \<open>parseMessage\<close>, the timestamp having become \<open>null\<close>. The well-formed envelope with payload
  \<open>[undefined]\<close> comes back with payload \<open>[null]\<close>.
\<close>

theorem envelope_roundtrip_counterexample:
  "wellFormed (pingEnvelope NaN JNull)
   \<and> parseMessage (serializeMessage (pingEnvelope NaN JNull)) = Inl (Error
        ''Failed to parse message: Invalid message format: missing required fields or invalid version'')
   \<and> wellFormed (pingEnvelope (Fin 5) (JArr [JUndefined]))
   \<and> parseMessage (serializeMessage (pingEnvelope (Fin 5) (JArr [JUndefined])))
        = Inr (envelope_js (pingEnvelope (Fin 5) (JArr [JNull])))
   \<and> get_prop (envelope_js (pingEnvelope (Fin 5) (JArr [JNull]))) ''payload'' = JArr [JNull]
   \<and> get_prop (envelope_js (pingEnvelope (Fin 5) (JArr [JUndefined]))) ''payload'' = JArr [JUndefined]"
proof -
  let ?v = "JObj [(''version'', JStr ''1.0''), (''type'', JStr ''ping''), (''id'', JStr ''42''),
          (''timestamp'', JNull), (''channel'', JStr ''heartbeat''), (''payload'', JNull)]"
  have "stringify_value ?v = Some (serializeMessage (pingEnvelope NaN JNull))"
    using serializeMessage_Some[of "pingEnvelope NaN JNull"] stringify_NaN_timestamp
    by (simp add: JSON_stringify_def)
  moreover have "json_value ?v" by simp
  ultimately have "JSON_parse (serializeMessage (pingEnvelope NaN JNull)) = Inr ?v"
    by (rule JSON_roundtrip[rotated])
  then have 1: "parseMessage (serializeMessage (pingEnvelope NaN JNull)) = Inl (Error
        ''Failed to parse message: Invalid message format: missing required fields or invalid version'')"
    by (simp add: parseMessage_def bindE_def validateAndNormalize_def isValidMessage_def)
  let ?w = "envelope_js (pingEnvelope (Fin 5) (JArr [JNull]))"
  have "stringify_value ?w = Some (serializeMessage (pingEnvelope (Fin 5) (JArr [JUndefined])))"
    using serializeMessage_Some[of "pingEnvelope (Fin 5) (JArr [JUndefined])"] stringify_undefined_element
    by (simp add: JSON_stringify_def)
  moreover have "json_value ?w" by (simp add: envelope_js_def pingEnvelope_def num_ok_def)
  ultimately have "JSON_parse (serializeMessage (pingEnvelope (Fin 5) (JArr [JUndefined]))) = Inr ?w"
    by (rule JSON_roundtrip[rotated])
  moreover have "truthy (isValidMessage ?w)"
    by (simp add: wellFormed_valid wellFormed_def pingEnvelope_def)
  ultimately have 2: "parseMessage (serializeMessage (pingEnvelope (Fin 5) (JArr [JUndefined]))) = Inr ?w"
    by (simp add: parseMessage_def bindE_def validateAndNormalize_def)
  show ?thesis
    using 1 2 by (simp add: wellFormed_def pingEnvelope_def envelope_js_def)
qed

end
